theory Spec2Isabelle
  imports Complex_Main "HOL-Library.AList" "HOL-Library.Log_Nat"
begin


section \<open>Presence timer (\<open>update_person_timer\<close>, face\_analysis.py lines 16--70)\<close>

text \<open>
  Wall-clock timestamps (\<open>time()\<close>) are Python floats; they are modelled as exact reals,
  so rounding of floating-point arithmetic is not part of the model of the timers.
  Python's \<open>int(x)\<close> on a float truncates towards zero.
\<close>

definition py_int :: "real \<Rightarrow> int" where
  "py_int x = (if 0 \<le> x then \<lfloor>x\<rfloor> else \<lceil>x\<rceil>)"

text \<open>
  One entry of the global dictionary \<open>PERSON_TIMERS\<close>.  The keys \<open>first_seen\<close> and
  \<open>last_seen\<close> are read with \<open>[...]\<close>; \<open>paused_at\<close> is read with \<open>.get\<close>, for which
  an absent key and the value \<open>None\<close> are the same (\<open>None\<close> here);
  \<open>accumulated_time\<close> is tested with \<open>not in\<close>, so \<open>None\<close> stands for the absent key.
\<close>

record person_timer =
  first_seen :: real
  last_seen :: real
  paused_at :: "real option"
  accumulated_time :: "int option"

type_synonym timers = "string \<rightharpoonup> person_timer"

definition RESET_THRESHOLD :: real where
  "RESET_THRESHOLD = 10"

text \<open>The dictionary literal of lines 33--38 and 64--69.\<close>

definition new_timer :: "real \<Rightarrow> person_timer" where
  "new_timer current_time =
     \<lparr>first_seen = current_time, last_seen = current_time,
      paused_at = None, accumulated_time = Some 0\<rparr>"

text \<open>Lines 45--52: the branch \<open>if is_timer_paused\<close>, on the entry whose \<open>last_seen\<close> is already updated.\<close>

definition pause_branch :: "person_timer \<Rightarrow> real \<Rightarrow> person_timer \<times> int" where
  "pause_branch t current_time =
     (let t' =
        (if paused_at t = None then
           (let t1 = (if accumulated_time t = None
                      then t\<lparr>accumulated_time := Some (py_int (current_time - first_seen t))\<rparr>
                      else t)
            in t1\<lparr>paused_at := Some current_time\<rparr>)
         else t)
      in (t', (case accumulated_time t' of None \<Rightarrow> 0 | Some a \<Rightarrow> a)))"

text \<open>Lines 53--61: the branch \<open>else\<close> (timer running).\<close>

definition resume_branch :: "person_timer \<Rightarrow> real \<Rightarrow> person_timer \<times> int" where
  "resume_branch t current_time =
     (let t' =
        (case paused_at t of
           Some p \<Rightarrow> t\<lparr>first_seen := first_seen t + (current_time - p), paused_at := None\<rparr>
         | None \<Rightarrow> t)
      in (t', py_int (current_time - first_seen t')))"

text \<open>
  \<open>update_person_timer\<close>: the global dictionary is passed in and returned with the
  number of seconds.
\<close>

definition update_person_timer ::
  "timers \<Rightarrow> string \<Rightarrow> real \<Rightarrow> bool \<Rightarrow> timers \<times> int" where
  "update_person_timer PERSON_TIMERS person_name current_time is_timer_paused =
     (if person_name = ''unknown'' \<or> person_name = [] then (PERSON_TIMERS, 0)
      else
        (case PERSON_TIMERS person_name of
           Some t \<Rightarrow>
             (let time_since_last_seen = current_time - last_seen t in
              if time_since_last_seen > RESET_THRESHOLD then
                (PERSON_TIMERS(person_name \<mapsto> new_timer current_time), 0)
              else
                (let t1 = t\<lparr>last_seen := current_time\<rparr>;
                     (t2, r) = (if is_timer_paused then pause_branch t1 current_time
                                else resume_branch t1 current_time)
                 in (PERSON_TIMERS(person_name \<mapsto> t2), r)))
         | None \<Rightarrow> (PERSON_TIMERS(person_name \<mapsto> new_timer current_time), 0)))"

text \<open>A sequence of calls for one name, as the renderer makes them frame after frame:
  the dictionary after the last call and the values returned, in order.\<close>

fun timer_calls :: "timers \<Rightarrow> string \<Rightarrow> (real \<times> bool) list \<Rightarrow> timers \<times> int list" where
  "timer_calls m nm [] = (m, [])"
| "timer_calls m nm ((now, p) # cs) =
     (let (m1, r) = update_person_timer m nm now p;
          (m2, rs) = timer_calls m1 nm cs
      in (m2, r # rs))"

text \<open>Every call of the list comes at most \<open>RESET_THRESHOLD\<close> seconds after the one before,
  the first at most that long after \<open>l\<close>.\<close>

fun within_gap :: "real \<Rightarrow> real list \<Rightarrow> bool" where
  "within_gap l [] = True"
| "within_gap l (now # ts) = (now - l \<le> RESET_THRESHOLD \<and> within_gap now ts)"

text \<open>A dictionary entry used as a concrete input below: first seen at 100 s, last seen at 120 s.\<close>

definition alice_timer :: person_timer where
  "alice_timer = \<lparr>first_seen = 100, last_seen = 120, paused_at = None, accumulated_time = Some 0\<rparr>"

section \<open>Eye-state association (\<open>FaceAnalysis.match_eye_openness\<close>, lines 134--165)\<close>

text \<open>
  The function is given twice.  This section computes areas and quotient in exact
  arithmetic: it decides which boxes intersect and whether the division can raise, and it is
  the version the reconciliation pass below calls.  The next section computes the same lines
  on doubles, as Python does; the comparison with \<open>0.4\<close> depends on it.
\<close>

text \<open>Exceptions of the Python code that the model makes explicit.\<close>

datatype py_error = ZeroDivisionError | KeyError | IndexError

text \<open>A bounding box \<open>(x1, y1, x2, y2)\<close>.\<close>

type_synonym box = "real \<times> real \<times> real \<times> real"

text \<open>
  One element of \<open>eye_opennesses['faces_data']\<close>: the keys the code reads.  (The dictionary
  keys are \<open>bbox\<close>, \<open>left_eye_open\<close>, \<open>right_eye_open\<close>; they carry the prefix \<open>fd_\<close> here
  because the track object has attributes of the same names.)
\<close>

record face_data =
  fd_bbox :: box
  fd_left_eye_open :: bool
  fd_right_eye_open :: bool

text \<open>Lines 147--150: the corners \<open>(ix1, iy1, ix2, iy2)\<close> of the intersection.\<close>

definition intersection :: "box \<Rightarrow> box \<Rightarrow> box" where
  "intersection b e =
     (case b of (x1, y1, x2, y2) \<Rightarrow> case e of (ex1, ey1, ex2, ey2) \<Rightarrow>
        (max x1 ex1, max y1 ey1, min x2 ex2, min y2 ey2))"

text \<open>Line 152: \<open>ix1 < ix2 and iy1 < iy2\<close>.\<close>

definition has_intersection :: "box \<Rightarrow> box \<Rightarrow> bool" where
  "has_intersection b e =
     (case intersection b e of (ix1, iy1, ix2, iy2) \<Rightarrow> ix1 < ix2 \<and> iy1 < iy2)"

text \<open>Lines 153--155: width times height, as written for \<open>inter_area\<close>, \<open>box_area\<close> and \<open>bbox_area\<close>.\<close>

definition area :: "box \<Rightarrow> real" where
  "area b = (case b of (x1, y1, x2, y2) \<Rightarrow> (x2 - x1) * (y2 - y1))"

text \<open>The divisor of line 156.\<close>

definition union_area :: "box \<Rightarrow> box \<Rightarrow> real" where
  "union_area b e = area b + area e - area (intersection b e)"

text \<open>The quotient of line 156, where the divisor is not zero.\<close>

definition iou :: "box \<Rightarrow> box \<Rightarrow> real" where
  "iou b e = area (intersection b e) / union_area b e"

text \<open>
  Lines 143--158, the loop that fills \<open>ious\<close>.  The division of line 156 raises
  \<open>ZeroDivisionError\<close> on a zero divisor; the model returns the exception.
\<close>

fun ious_loop ::
  "box \<Rightarrow> (real \<times> face_data) list \<Rightarrow> face_data list \<Rightarrow> py_error + (real \<times> face_data) list" where
  "ious_loop b ious [] = Inr ious"
| "ious_loop b ious (face # faces) =
     (if has_intersection b (fd_bbox face) then
        (if union_area b (fd_bbox face) = 0 then Inl ZeroDivisionError
         else ious_loop b (ious @ [(iou b (fd_bbox face), face)]) faces)
      else ious_loop b ious faces)"

text \<open>
  Python's \<open>max(ious, key=lambda x: x[0])\<close> on a non-empty list, given as its first element
  and the rest: the candidate is replaced only by an element with a strictly greater key, so
  the first of several maximal elements is returned.
\<close>

fun py_max_key :: "real \<times> 'a \<Rightarrow> (real \<times> 'a) list \<Rightarrow> real \<times> 'a" where
  "py_max_key best [] = best"
| "py_max_key best (x # xs) = py_max_key (if fst best < fst x then x else best) xs"

text \<open>
  \<open>match_eye_openness\<close>.  The argument \<open>eye_opennesses\<close> is \<open>None\<close> when the Python value is
  \<open>None\<close> or has no key \<open>faces_data\<close>, and \<open>Some\<close> of the list under that key otherwise.
\<close>

definition match_eye_openness :: "face_data list option \<Rightarrow> box \<Rightarrow> py_error + face_data option" where
  "match_eye_openness eye_opennesses b =
     (case eye_opennesses of
        None \<Rightarrow> Inr None
      | Some faces_data \<Rightarrow>
          (case ious_loop b [] faces_data of
             Inl e \<Rightarrow> Inl e
           | Inr [] \<Rightarrow> Inr None
           | Inr (x # xs) \<Rightarrow>
               (let max_iou_tuple = py_max_key x xs;
                    max_iou = fst max_iou_tuple
                in Inr (if max_iou > 4 / 10 then Some (snd max_iou_tuple) else None))))"

text \<open>Concrete inputs used below: a track box of 10 by 10 and detections inside it.\<close>

definition track_box :: box where
  "track_box = (0, 0, 10, 10)"

definition eyes_at :: "box \<Rightarrow> face_data" where
  "eyes_at e = \<lparr>fd_bbox = e, fd_left_eye_open = False, fd_right_eye_open = False\<rparr>"

section \<open>The association in double precision (lines 147--163 on Python floats)\<close>

text \<open>
  Python's \<open>float\<close> is the IEEE 754 double: 53 significant bits, exponents of the unit in the
  last place from \<open>-1074\<close> (subnormal numbers) upwards, every arithmetic result rounded to the
  nearest double, ties to the one with an even significand.  Comparisons, \<open>max\<close> and \<open>min\<close>
  are exact.  A finite double is modelled by the real number it denotes.
\<close>

text \<open>\<open>2\<close> to an integer power.\<close>

definition pow2 :: "int \<Rightarrow> real" where
  "pow2 e = (if 0 \<le> e then 2 ^ nat e else 1 / 2 ^ nat (- e))"

text \<open>
  The binary exponent of \<open>x > 0\<close>, that is the \<open>e\<close> with \<open>2^e \<le> x < 2^(e+1)\<close>, from the
  number of bits of the integer part of \<open>x\<close> or of \<open>1 / x\<close>.
\<close>

definition ilog2 :: "real \<Rightarrow> int" where
  "ilog2 x =
     (if 1 \<le> x then bitlen \<lfloor>x\<rfloor> - 1
      else (let k = bitlen \<lfloor>1 / x\<rfloor>
            in if x * 2 ^ nat (k - 1) = 1 then 1 - k else - k))"

text \<open>Rounding to the nearest integer, a tie to the even one.\<close>

definition round_half_even :: "real \<Rightarrow> int" where
  "round_half_even y =
     (let f = \<lfloor>y\<rfloor>; r = y - of_int f
      in if r < 1 / 2 then f
         else if 1 / 2 < r then f + 1
         else if even f then f else f + 1)"

text \<open>
  The double nearest to a real: the unit in the last place of \<open>x\<close> is \<open>2^(e - 52)\<close> for the
  binary exponent \<open>e\<close> of \<open>|x|\<close>, and \<open>2^(-1074)\<close> at least.  \<open>None\<close> when the rounded value
  reaches \<open>2^1024\<close> (binary exponent 1024 or more): the result is then \<open>inf\<close>, which the
  model does not follow.
\<close>

definition fl :: "real \<Rightarrow> real option" where
  "fl x =
     (if x = 0 then Some 0
      else
        (let u = pow2 (max (ilog2 \<bar>x\<bar> - 52) (- 1074));
             y = of_int (round_half_even (\<bar>x\<bar> / u)) * u
         in if 1024 \<le> ilog2 y then None else Some (if x < 0 then - y else y)))"

text \<open>The literal \<open>0.4\<close> of line 163: the double nearest to \<open>4/10\<close>.\<close>

definition double_0_4 :: real where
  "double_0_4 = 3602879701896397 / 9007199254740992"






text \<open>
  A track box and a detection with the double \<open>132.3\<close> as their width: the detection is the
  upper 100 of the 250 rows of the track box.
\<close>

definition double_132_3 :: real where
  "double_132_3 = 2327446213676237 / 17592186044416"



section \<open>Per-frame reconciliation (\<open>FaceAnalysis.get\<close> with tracking enabled, lines 201--301)\<close>

text \<open>
  The dictionary returned by \<open>find_face\<close> (keys \<open>name\<close>, \<open>score\<close>, \<open>pinfl\<close>, \<open>image_path\<close>;
  prefixed here because the track object has attributes of the same names).
\<close>

record person =
  p_name :: string
  p_score :: real
  p_pinfl :: string
  p_image_path :: string

text \<open>
  The attributes of a \<open>TrackableObject\<close> that \<open>get\<close> reads or writes.  The class is imported
  from \<open>facelibuz\<close>; its constructor is a parameter of the model.
\<close>

record track_obj =
  bbox :: box
  kps :: "(real \<times> real) list"
  live :: bool
  lost_count :: nat
  recognized :: bool
  name :: string
  pinfl :: string
  score :: real
  image_path :: string
  age :: int
  gender :: int
  left_eye_open :: string
  right_eye_open :: string
  cumulative_closed_time :: real
  timer_paused :: bool
  last_eye_check_time :: "real option"

text \<open>
  One element \<open>obj\<close> of the tracker's output (\<open>obj[1]\<close>, \<open>obj[2:6]\<close>, \<open>obj[6]\<close>) together with
  what the external collaborators return while the element is processed: the result of
  \<open>find_face\<close> on the embedding of the face (read only when the track is not yet recognized),
  the clock value of lines 239 and 244, age and gender of line 251, the clock value of line 258.
\<close>

record tracked =
  t_id :: nat
  t_bbox :: box
  t_kps :: "real list"
  t_person :: "person option"
  t_cur :: real
  t_age :: int
  t_gender :: int
  t_now :: real

text \<open>
  The state of a \<open>FaceAnalysis\<close> object that \<open>get\<close> changes: the ordered dictionary
  \<open>trackableObjects\<close> as an association list (a new key is appended, an existing key keeps
  its place) and the dictionaries \<open>seen_people\<close> and \<open>record_people\<close>.
\<close>

record face_analysis =
  trackableObjects :: "(nat \<times> track_obj) list"
  seen_people :: "string \<rightharpoonup> nat"
  record_people :: "string \<rightharpoonup> real"

text \<open>The state \<open>__init__\<close> leaves (lines 87, 88, 95).\<close>

definition init_analysis :: face_analysis where
  "init_analysis = \<lparr>trackableObjects = [], seen_people = Map.empty, record_people = Map.empty\<rparr>"

text \<open>Line 214: \<open>[[kps[j], kps[j + 5]] for j in range(5)]\<close>; an index beyond the list raises.\<close>

definition facial5points :: "real list \<Rightarrow> py_error + (real \<times> real) list" where
  "facial5points ks =
     (if length ks < 10 then Inl IndexError
      else Inr (map (\<lambda>j. (ks ! j, ks ! (j + 5))) [0..<5]))"

text \<open>
  Lines 238--245: the sightings counter for the name \<open>nm\<close> at clock value \<open>cur\<close>.
  \<open>seen_people[nm] += 1\<close> raises \<open>KeyError\<close> when the key is missing.
\<close>

definition count_sighting :: "face_analysis \<Rightarrow> string \<Rightarrow> real \<Rightarrow> py_error + face_analysis" where
  "count_sighting self nm cur =
     (case record_people self nm of
        Some prev \<Rightarrow>
          (if cur - prev > 15 then
             (case seen_people self nm of
                None \<Rightarrow> Inl KeyError
              | Some c \<Rightarrow>
                  Inr (self\<lparr>seen_people := (seen_people self)(nm \<mapsto> c + 1),
                            record_people := (record_people self)(nm \<mapsto> cur)\<rparr>))
           else Inr (self\<lparr>record_people := (record_people self)(nm \<mapsto> cur)\<rparr>))
      | None \<Rightarrow>
          Inr (self\<lparr>record_people := (record_people self)(nm \<mapsto> cur),
                    seen_people := (seen_people self)
                      (nm \<mapsto> (case seen_people self nm of None \<Rightarrow> 0 | Some c \<Rightarrow> c) + 1)\<rparr>))"

text \<open>Lines 227--249: identity resolution for a track, \<open>found\<close> being the result of \<open>find_face\<close>.\<close>

definition resolve_identity ::
  "face_analysis \<Rightarrow> track_obj \<Rightarrow> person option \<Rightarrow> real \<Rightarrow> py_error + (face_analysis \<times> track_obj)" where
  "resolve_identity self tr found cur =
     (if \<not> recognized tr then
        (case (case found of
                 None \<Rightarrow> Inr (self, tr)
               | Some p \<Rightarrow>
                   (if p_score p > score tr then
                      (case count_sighting self (p_name p) cur of
                         Inl e \<Rightarrow> Inl e
                       | Inr self' \<Rightarrow>
                           Inr (self', tr\<lparr>name := p_name p, pinfl := p_pinfl p,
                                          score := p_score p, image_path := p_image_path p\<rparr>))
                    else Inr (self, tr))) of
           Inl e \<Rightarrow> Inl e
         | Inr (self', tr') \<Rightarrow>
             Inr (self', if score tr' > 0 then tr'\<lparr>recognized := True\<rparr> else tr'))
      else Inr (self, tr))"

text \<open>
  Lines 254--288: the eye states and the closure debounce; \<open>eye_openness_data\<close> is the result
  of \<open>match_eye_openness\<close>, \<open>current_time\<close> the clock value of line 258.
\<close>

definition eye_closure :: "track_obj \<Rightarrow> face_data option \<Rightarrow> real \<Rightarrow> track_obj" where
  "eye_closure tr eye_openness_data current_time =
     (let tr0 = tr\<lparr>left_eye_open := ''unknown'', right_eye_open := ''unknown''\<rparr> in
      case eye_openness_data of
        None \<Rightarrow> tr0
      | Some d \<Rightarrow>
          (let tr1 = tr0\<lparr>left_eye_open := (if fd_left_eye_open d then ''Open'' else ''Closed''),
                         right_eye_open := (if fd_right_eye_open d then ''Open'' else ''Closed'')\<rparr>;
               any_eye_closed = (\<not> fd_left_eye_open d \<or> \<not> fd_right_eye_open d);
               last_check = (case last_eye_check_time tr1 of None \<Rightarrow> current_time | Some l \<Rightarrow> l);
               time_elapsed = current_time - last_check;
               tr2 = (if any_eye_closed then
                        (let tr' = tr1\<lparr>cumulative_closed_time :=
                                         cumulative_closed_time tr1 + time_elapsed\<rparr>
                         in if cumulative_closed_time tr' \<ge> 3 then tr'\<lparr>timer_paused := True\<rparr>
                            else tr')
                      else
                        (if timer_paused tr1 then tr1\<lparr>timer_paused := False\<rparr> else tr1)
                          \<lparr>cumulative_closed_time := 0\<rparr>)
           in tr2\<lparr>last_eye_check_time := Some current_time\<rparr>))"

text \<open>Lines 216--219: the record of the track, a new \<open>TrackableObject\<close> when there is none.\<close>

definition lookup_track ::
  "(nat \<Rightarrow> tracked \<Rightarrow> track_obj) \<Rightarrow> face_analysis \<Rightarrow> tracked \<Rightarrow> track_obj" where
  "lookup_track TrackableObject self obj =
     (case map_of (trackableObjects self) (t_id obj) of
        None \<Rightarrow> TrackableObject (t_id obj) obj
      | Some tr \<Rightarrow> tr)"

text \<open>Lines 207--290: the body of the loop over the tracker's output.\<close>

definition process_object ::
  "(nat \<Rightarrow> tracked \<Rightarrow> track_obj) \<Rightarrow> face_data list option \<Rightarrow> face_analysis \<Rightarrow> tracked
     \<Rightarrow> py_error + face_analysis" where
  "process_object TrackableObject eye_opennesses self obj =
     (case match_eye_openness eye_opennesses (t_bbox obj) of
        Inl e \<Rightarrow> Inl e
      | Inr eye_openness_data \<Rightarrow>
          (case facial5points (t_kps obj) of
             Inl e \<Rightarrow> Inl e
           | Inr points \<Rightarrow>
               (let tr = (lookup_track TrackableObject self obj)
                           \<lparr>bbox := t_bbox obj, kps := points, live := True, lost_count := 0\<rparr>
                in case resolve_identity self tr (t_person obj) (t_cur obj) of
                     Inl e \<Rightarrow> Inl e
                   | Inr (self', tr') \<Rightarrow>
                       (let tr'' = eye_closure (tr'\<lparr>age := t_age obj, gender := t_gender obj\<rparr>)
                                     eye_openness_data (t_now obj)
                        in Inr (self'\<lparr>trackableObjects :=
                                        AList.update (t_id obj) tr'' (trackableObjects self')\<rparr>)))))"

fun process_objects ::
  "(nat \<Rightarrow> tracked \<Rightarrow> track_obj) \<Rightarrow> face_data list option \<Rightarrow> face_analysis \<Rightarrow> tracked list
     \<Rightarrow> py_error + face_analysis" where
  "process_objects TrackableObject eye_opennesses self [] = Inr self"
| "process_objects TrackableObject eye_opennesses self (obj # objs) =
     (case process_object TrackableObject eye_opennesses self obj of
        Inl e \<Rightarrow> Inl e
      | Inr self' \<Rightarrow> process_objects TrackableObject eye_opennesses self' objs)"

text \<open>Lines 298--299: \<open>del\<close> raises \<open>KeyError\<close> on a key that is not in the dictionary.\<close>

fun delete_dead :: "nat list \<Rightarrow> (nat \<times> track_obj) list \<Rightarrow> py_error + (nat \<times> track_obj) list" where
  "delete_dead [] reg = Inr reg"
| "delete_dead (objectID # ids) reg =
     (case map_of reg objectID of
        None \<Rightarrow> Inl KeyError
      | Some _ \<Rightarrow> delete_dead ids (AList.delete objectID reg))"

text \<open>
  What one frame delivers: the result of the eye-openness detector and the tracker's output
  with the collaborators' answers.
\<close>

record frame =
  eye_opennesses :: "face_data list option"
  objects :: "tracked list"

text \<open>
  \<open>get\<close> for an object built with \<open>tracking=True\<close>: lines 204--205 mark every record dead,
  lines 207--290 process the tracker's output, lines 293--299 delete the records still dead.
  (The list \<open>faces\<close> returned is empty in this mode; the effect is the new state.)
\<close>

definition get ::
  "(nat \<Rightarrow> tracked \<Rightarrow> track_obj) \<Rightarrow> face_analysis \<Rightarrow> frame \<Rightarrow> py_error + face_analysis" where
  "get TrackableObject self fr =
     (let self0 = self\<lparr>trackableObjects :=
                         map (\<lambda>(objectID, tr). (objectID, tr\<lparr>live := False\<rparr>))
                             (trackableObjects self)\<rparr>
      in case process_objects TrackableObject (eye_opennesses fr) self0 (objects fr) of
           Inl e \<Rightarrow> Inl e
         | Inr self1 \<Rightarrow>
             (let dead_objects =
                    map fst (filter (\<lambda>(objectID, tr). \<not> live tr) (trackableObjects self1))
              in case delete_dead dead_objects (trackableObjects self1) of
                   Inl e \<Rightarrow> Inl e
                 | Inr reg \<Rightarrow> Inr (self1\<lparr>trackableObjects := reg\<rparr>)))"

text \<open>Frame after frame.\<close>

fun get_frames ::
  "(nat \<Rightarrow> tracked \<Rightarrow> track_obj) \<Rightarrow> face_analysis \<Rightarrow> frame list \<Rightarrow> py_error + face_analysis" where
  "get_frames TrackableObject self [] = Inr self"
| "get_frames TrackableObject self (fr # frs) =
     (case get TrackableObject self fr of
        Inl e \<Rightarrow> Inl e
      | Inr self' \<Rightarrow> get_frames TrackableObject self' frs)"

section \<open>Runs and concrete inputs\<close>

text \<open>The closure debounce of one track over frames in which an eye state was matched.\<close>

fun eye_frames :: "track_obj \<Rightarrow> (face_data \<times> real) list \<Rightarrow> track_obj" where
  "eye_frames tr [] = tr"
| "eye_frames tr ((d, now) # fs) = eye_frames (eye_closure tr (Some d) now) fs"

text \<open>
  A constructor for the concrete inputs below: an unrecognized track without a name, its
  closure debounce at rest.  (The theorems hold for every constructor.)
\<close>

definition blank_track :: "nat \<Rightarrow> tracked \<Rightarrow> track_obj" where
  "blank_track objectID obj =
     \<lparr>bbox = t_bbox obj, kps = [], live = True, lost_count = 0, recognized = False,
      name = ''unknown'', pinfl = [], score = 0, image_path = [], age = 0, gender = 2,
      left_eye_open = ''unknown'', right_eye_open = ''unknown'',
      cumulative_closed_time = 0, timer_paused = False, last_eye_check_time = None\<rparr>"

text \<open>A tracker output for track \<open>i\<close> at \<open>track_box\<close>, processed at clock value \<open>now\<close>,
  for which \<open>find_face\<close> returned \<open>found\<close>.\<close>

definition seen_at :: "nat \<Rightarrow> person option \<Rightarrow> real \<Rightarrow> tracked" where
  "seen_at i found now =
     \<lparr>t_id = i, t_bbox = track_box, t_kps = [1, 2, 3, 4, 5, 6, 7, 8, 9, 10], t_person = found,
      t_cur = now, t_age = 30, t_gender = 1, t_now = now\<rparr>"

text \<open>Eye-state detections on the whole of \<open>track_box\<close> (IoU 1): both eyes closed, both open.\<close>

definition eyes_closed :: face_data where
  "eyes_closed = \<lparr>fd_bbox = track_box, fd_left_eye_open = False, fd_right_eye_open = False\<rparr>"

definition eyes_open :: face_data where
  "eyes_open = \<lparr>fd_bbox = track_box, fd_left_eye_open = True, fd_right_eye_open = True\<rparr>"

text \<open>A track whose eyes were last checked at 1 s.\<close>

definition checked_track :: track_obj where
  "checked_track = (blank_track 1 (seen_at 1 None 1))\<lparr>last_eye_check_time := Some 1\<rparr>"

text \<open>A registry holding that track under id 1.\<close>

definition one_track :: face_analysis where
  "one_track = init_analysis\<lparr>trackableObjects := [(1, checked_track)]\<rparr>"

text \<open>
  Recognitions in the order they happen: \<open>count_sighting\<close> for each name and clock value;
  \<open>increments\<close> lists the recognitions at which the counter \<open>seen_people\<close> of the name
  changed.
\<close>

fun sightings :: "face_analysis \<Rightarrow> (string \<times> real) list \<Rightarrow> py_error + face_analysis" where
  "sightings self [] = Inr self"
| "sightings self ((nm, cur) # evs) =
     (case count_sighting self nm cur of
        Inl e \<Rightarrow> Inl e
      | Inr self' \<Rightarrow> sightings self' evs)"

fun increments :: "face_analysis \<Rightarrow> (string \<times> real) list \<Rightarrow> (string \<times> real) list" where
  "increments self [] = []"
| "increments self ((nm, cur) # evs) =
     (case count_sighting self nm cur of
        Inl e \<Rightarrow> []
      | Inr self' \<Rightarrow>
          (if seen_people self' nm \<noteq> seen_people self nm then [(nm, cur)] else [])
          @ increments self' evs)"

text \<open>The counters after one recognition of \<open>alice\<close> at 0 s.\<close>

definition alice_seen :: face_analysis where
  "alice_seen = init_analysis\<lparr>seen_people := [''alice'' \<mapsto> 1], record_people := [''alice'' \<mapsto> 0]\<rparr>"

text \<open>A recognized track of \<open>alice\<close> under id 1, and another person \<open>find_face\<close> may return.\<close>

definition alice_track :: track_obj where
  "alice_track = checked_track\<lparr>recognized := True, name := ''alice'', pinfl := ''123'',
                               score := 9 / 10, image_path := ''alice.jpg''\<rparr>"

definition alice_tracked :: face_analysis where
  "alice_tracked = alice_seen\<lparr>trackableObjects := [(1, alice_track)]\<rparr>"

definition bob :: person where
  "bob = \<lparr>p_name = ''bob'', p_score = 99 / 100, p_pinfl = ''456'', p_image_path = ''bob.jpg''\<rparr>"

text \<open>A frame in which the eye-openness detector reports one face on \<open>track_box\<close>, eyes closed.\<close>

definition frame_of :: "tracked list \<Rightarrow> frame" where
  "frame_of objs = \<lparr>eye_opennesses = Some [eyes_closed], objects = objs\<rparr>"

text \<open>
  The identity a registry holds for track \<open>k\<close> after a run of frames: \<open>name\<close>, \<open>pinfl\<close>,
  \<open>score\<close>, \<open>image_path\<close> and \<open>recognized\<close> of its record; \<open>None\<close> when the run raised or the
  registry has no record for \<open>k\<close>.
\<close>

definition identity_of ::
  "py_error + face_analysis \<Rightarrow> nat \<Rightarrow> (string \<times> string \<times> real \<times> string \<times> bool) option" where
  "identity_of r k =
     (case r of
        Inl e \<Rightarrow> None
      | Inr self \<Rightarrow>
          map_option (\<lambda>tr. (name tr, pinfl tr, score tr, image_path tr, recognized tr))
            (map_of (trackableObjects self) k))"

section \<open>Properties of the presence timer\<close>

subsection \<open>Runs of calls\<close>

lemma within_gap_append:
  "within_gap l (xs @ ys) = (within_gap l xs \<and> within_gap (last (l # xs)) ys)"
  by (induction xs arbitrary: l) auto

lemma timer_calls_Cons:
  "fst (timer_calls m nm (c # cs)) =
     fst (timer_calls (fst (update_person_timer m nm (fst c) (snd c))) nm cs)"
  "snd (timer_calls m nm (c # cs)) =
     snd (update_person_timer m nm (fst c) (snd c)) #
     snd (timer_calls (fst (update_person_timer m nm (fst c) (snd c))) nm cs)"
  by (cases c; simp add: Let_def split: prod.splits)+

lemma fst_timer_calls_append:
  "fst (timer_calls m nm (cs @ ds)) = fst (timer_calls (fst (timer_calls m nm cs)) nm ds)"
  by (induction cs arbitrary: m) (simp_all add: timer_calls_Cons del: timer_calls.simps(2))

lemma last_timer_calls_snoc:
  "last (snd (timer_calls m nm (cs @ [d]))) =
     snd (update_person_timer (fst (timer_calls m nm cs)) nm (fst d) (snd d))"
proof (induction cs arbitrary: m)
  case Nil
  show ?case by (simp add: timer_calls_Cons del: timer_calls.simps(2))
next
  case (Cons c cs)
  have "snd (timer_calls (fst (update_person_timer m nm (fst c) (snd c))) nm (cs @ [d])) \<noteq> []"
    by (cases cs) (simp_all add: timer_calls_Cons del: timer_calls.simps(2))
  then show ?case
    using Cons.IH by (simp add: timer_calls_Cons del: timer_calls.simps(2))
qed

subsection \<open>One call within the absence gap\<close>

lemma update_within_gap_paused:
  assumes "nm \<noteq> ''unknown''" "nm \<noteq> []" "m nm = Some t" "now - last_seen t \<le> RESET_THRESHOLD"
  shows "update_person_timer m nm now True =
           (m(nm \<mapsto> fst (pause_branch (t\<lparr>last_seen := now\<rparr>) now)),
            snd (pause_branch (t\<lparr>last_seen := now\<rparr>) now))"
  using assms by (simp add: update_person_timer_def Let_def split: prod.splits)

lemma update_within_gap_running:
  assumes "nm \<noteq> ''unknown''" "nm \<noteq> []" "m nm = Some t" "now - last_seen t \<le> RESET_THRESHOLD"
  shows "update_person_timer m nm now False =
           (m(nm \<mapsto> fst (resume_branch (t\<lparr>last_seen := now\<rparr>) now)),
            snd (resume_branch (t\<lparr>last_seen := now\<rparr>) now))"
  using assms by (simp add: update_person_timer_def Let_def split: prod.splits)

lemma paused_calls_keep:
  assumes "nm \<noteq> ''unknown''" "nm \<noteq> []"
  shows "m nm = Some t \<Longrightarrow> paused_at t = Some q \<Longrightarrow> within_gap (last_seen t) ts \<Longrightarrow>
         \<exists>t'. fst (timer_calls m nm (map (\<lambda>x. (x, True)) ts)) nm = Some t' \<and>
              first_seen t' = first_seen t \<and> paused_at t' = Some q \<and>
              accumulated_time t' = accumulated_time t \<and>
              last_seen t' = last (last_seen t # ts)"
proof (induction ts arbitrary: m t)
  case Nil
  then show ?case by simp
next
  case (Cons x xs)
  let ?t1 = "fst (pause_branch (t\<lparr>last_seen := x\<rparr>) x)"
  have gap: "x - last_seen t \<le> RESET_THRESHOLD" and rest: "within_gap x xs"
    using Cons.prems(3) by simp_all
  have step: "update_person_timer m nm x True =
                (m(nm \<mapsto> ?t1), snd (pause_branch (t\<lparr>last_seen := x\<rparr>) x))"
    using update_within_gap_paused [of nm m t x] assms Cons.prems(1) gap by simp
  have t1: "first_seen ?t1 = first_seen t" "paused_at ?t1 = Some q"
    "accumulated_time ?t1 = accumulated_time t" "last_seen ?t1 = x"
    using Cons.prems(2) by (simp_all add: pause_branch_def)
  have "\<exists>t'. fst (timer_calls (m(nm \<mapsto> ?t1)) nm (map (\<lambda>x. (x, True)) xs)) nm = Some t' \<and>
              first_seen t' = first_seen ?t1 \<and> paused_at t' = Some q \<and>
              accumulated_time t' = accumulated_time ?t1 \<and>
              last_seen t' = last (last_seen ?t1 # xs)"
    by (rule Cons.IH) (use t1 rest in simp_all)
  then show ?case
    using step t1 by (auto simp: Let_def split: prod.splits)
qed

text \<open>
  C5 (resume continuity).  An entry that is running (\<open>paused_at\<close> is \<open>None\<close>) is paused by a
  call at time \<open>tp\<close>, polled while paused at the times \<open>ts\<close>, and resumed by a call at time
  \<open>tr\<close>, every call coming at most 10 s after the one before.  The resuming call moves
  \<open>first_seen\<close> forward by \<open>tr - tp\<close> and clears \<open>paused_at\<close>, and the number of seconds it
  returns is \<open>int(tp - first_seen)\<close>: what a running timer shows at the moment of pausing,
  whatever the length of the pause.
\<close>

theorem resume_continuity:
  assumes nm: "nm \<noteq> ''unknown''" "nm \<noteq> []"
    and t: "m nm = Some t" "paused_at t = None"
    and gap: "within_gap (last_seen t) (tp # ts @ [tr])"
  shows "\<exists>t'. fst (timer_calls m nm ((tp, True) # map (\<lambda>x. (x, True)) ts @ [(tr, False)])) nm = Some t'
            \<and> first_seen t' = first_seen t + (tr - tp)
            \<and> paused_at t' = None
            \<and> last (snd (timer_calls m nm ((tp, True) # map (\<lambda>x. (x, True)) ts @ [(tr, False)])))
                = py_int (tp - first_seen t)
            \<and> snd (update_person_timer m nm tp False) = py_int (tp - first_seen t)"
proof -
  let ?t1 = "fst (pause_branch (t\<lparr>last_seen := tp\<rparr>) tp)"
  let ?m1 = "m(nm \<mapsto> ?t1)"
  have g1: "tp - last_seen t \<le> RESET_THRESHOLD" and g2: "within_gap tp ts"
    and g3: "tr - last (tp # ts) \<le> RESET_THRESHOLD"
    using gap by (simp_all add: within_gap_append)
  have s1: "update_person_timer m nm tp True = (?m1, snd (pause_branch (t\<lparr>last_seen := tp\<rparr>) tp))"
    using update_within_gap_paused [of nm m t tp] nm t(1) g1 by simp
  have t1: "first_seen ?t1 = first_seen t" "paused_at ?t1 = Some tp" "last_seen ?t1 = tp"
    using t(2) by (simp_all add: pause_branch_def Let_def)
  obtain t2 where t2: "fst (timer_calls ?m1 nm (map (\<lambda>x. (x, True)) ts)) nm = Some t2"
    "first_seen t2 = first_seen t" "paused_at t2 = Some tp" "last_seen t2 = last (tp # ts)"
    using paused_calls_keep [OF nm, of ?m1 ?t1 tp ts] t1 g2 by auto
  let ?m2 = "fst (timer_calls ?m1 nm (map (\<lambda>x. (x, True)) ts))"
  let ?t3 = "fst (resume_branch (t2\<lparr>last_seen := tr\<rparr>) tr)"
  have s3: "update_person_timer ?m2 nm tr False =
              (?m2(nm \<mapsto> ?t3), snd (resume_branch (t2\<lparr>last_seen := tr\<rparr>) tr))"
    using update_within_gap_running [of nm ?m2 t2 tr] nm t2(1) g3 t2(4) by simp
  have t3: "first_seen ?t3 = first_seen t + (tr - tp)" "paused_at ?t3 = None"
    "snd (resume_branch (t2\<lparr>last_seen := tr\<rparr>) tr) = py_int (tp - first_seen t)"
    using t2 by (simp_all add: resume_branch_def Let_def)
  let ?cs = "(tp, True) # map (\<lambda>x. (x, True)) ts"
  have m2: "fst (timer_calls m nm ?cs) = ?m2"
    using s1 by (simp add: timer_calls_Cons del: timer_calls.simps(2))
  have fin: "fst (timer_calls m nm (?cs @ [(tr, False)])) nm = Some ?t3"
    using s3 m2 by (simp add: fst_timer_calls_append timer_calls_Cons del: timer_calls.simps(2))
  have ret: "last (snd (timer_calls m nm (?cs @ [(tr, False)]))) = py_int (tp - first_seen t)"
    using s3 m2 t3(3) by (simp only: last_timer_calls_snoc fst_conv snd_conv)
  have u: "snd (update_person_timer m nm tp False) = py_int (tp - first_seen t)"
    using update_within_gap_running [of nm m t tp] nm t(1) g1 t(2) by (simp add: resume_branch_def)
  show ?thesis using fin ret t3 u by simp
qed


subsection \<open>The names \<open>unknown\<close> and the empty name never become keys\<close>

lemma update_never_adds_unknown:
  "fst (update_person_timer m nm now p) ''unknown'' = m ''unknown''"
  "fst (update_person_timer m nm now p) [] = m []"
  by (auto simp: update_person_timer_def Let_def split: option.splits prod.splits)

text \<open>
  C1 (snapshot on the transition into pause).  Every entry the function creates carries the
  key \<open>accumulated_time\<close> with value 0, so the test \<open>'accumulated_time' not in ...\<close> of line 48
  fails and the snapshot of line 49 is skipped.  For a person first seen at 0 s, the call at
  5 s with \<open>is_timer_paused = True\<close> returns 0 and leaves \<open>accumulated_time\<close> at 0, where a
  running timer shows 5 at the same moment.
\<close>

theorem pause_snapshot_skipped:
  "snd (update_person_timer (fst (update_person_timer Map.empty ''alice'' 0 False)) ''alice'' 5 True) = 0
   \<and> snd (update_person_timer (fst (update_person_timer Map.empty ''alice'' 0 False)) ''alice'' 5 False) = 5
   \<and> map_option accumulated_time
        (fst (update_person_timer (fst (update_person_timer Map.empty ''alice'' 0 False)) ''alice'' 5 True) ''alice'')
       = Some (Some 0)"
  by (simp add: update_person_timer_def new_timer_def pause_branch_def resume_branch_def
      RESET_THRESHOLD_def py_int_def Let_def)

text \<open>
  C6 (absence reset).  For a name that is a key of the dictionary: when more than 10 s have
  passed since \<open>last_seen\<close> the entry is replaced by a new one (\<open>first_seen = last_seen = now\<close>,
  \<open>accumulated_time = 0\<close>, \<open>paused_at = None\<close>) and 0 is returned; when at most 10 s have
  passed, exactly 10 s included, the entry is not replaced: it is updated by the pause/resume
  branches and the value returned is theirs.
\<close>

theorem absence_reset:
  assumes "nm \<noteq> ''unknown''" "nm \<noteq> []" "m nm = Some t"
  shows "(now - last_seen t > 10 \<longrightarrow>
            update_person_timer m nm now p =
              (m(nm \<mapsto> \<lparr>first_seen = now, last_seen = now, paused_at = None,
                          accumulated_time = Some 0\<rparr>), 0))
       \<and> (now - last_seen t \<le> 10 \<longrightarrow>
            (\<exists>t'. fst (update_person_timer m nm now p) = m(nm \<mapsto> t')
               \<and> last_seen t' = now
               \<and> first_seen t' =
                   (case paused_at t of Some q \<Rightarrow> if p then first_seen t else first_seen t + (now - q)
                    | None \<Rightarrow> first_seen t)
               \<and> paused_at t' =
                   (if p then (case paused_at t of None \<Rightarrow> Some now | Some q \<Rightarrow> Some q) else None)
               \<and> accumulated_time t' =
                   (if p \<and> paused_at t = None \<and> accumulated_time t = None
                    then Some (py_int (now - first_seen t)) else accumulated_time t)
               \<and> snd (update_person_timer m nm now p) =
                   (if p then (case accumulated_time t' of None \<Rightarrow> 0 | Some a \<Rightarrow> a)
                    else py_int (now - first_seen t'))))"
proof (intro conjI impI)
  assume "now - last_seen t > 10"
  then show "update_person_timer m nm now p =
      (m(nm \<mapsto> \<lparr>first_seen = now, last_seen = now, paused_at = None,
                  accumulated_time = Some 0\<rparr>), 0)"
    using assms by (simp add: update_person_timer_def new_timer_def RESET_THRESHOLD_def)
next
  assume "now - last_seen t \<le> 10"
  then have gap: "now - last_seen t \<le> RESET_THRESHOLD"
    by (simp add: RESET_THRESHOLD_def)
  let ?P = "\<lambda>t'. fst (update_person_timer m nm now p) = m(nm \<mapsto> t')
               \<and> last_seen t' = now
               \<and> first_seen t' =
                   (case paused_at t of Some q \<Rightarrow> if p then first_seen t else first_seen t + (now - q)
                    | None \<Rightarrow> first_seen t)
               \<and> paused_at t' =
                   (if p then (case paused_at t of None \<Rightarrow> Some now | Some q \<Rightarrow> Some q) else None)
               \<and> accumulated_time t' =
                   (if p \<and> paused_at t = None \<and> accumulated_time t = None
                    then Some (py_int (now - first_seen t)) else accumulated_time t)
               \<and> snd (update_person_timer m nm now p) =
                   (if p then (case accumulated_time t' of None \<Rightarrow> 0 | Some a \<Rightarrow> a)
                    else py_int (now - first_seen t'))"
  show "\<exists>t'. ?P t'"
  proof (cases p)
    case True
    have "?P (fst (pause_branch (t\<lparr>last_seen := now\<rparr>) now))"
      using True update_within_gap_paused [of nm m t now] assms gap
      by (simp add: pause_branch_def Let_def split: option.splits)
    then show ?thesis ..
  next
    case False
    have "?P (fst (resume_branch (t\<lparr>last_seen := now\<rparr>) now))"
      using False update_within_gap_running [of nm m t now] assms gap
      by (simp add: resume_branch_def Let_def split: option.splits)
    then show ?thesis ..
  qed
qed

theorem absence_reset_witness:
  "update_person_timer [''alice'' \<mapsto> alice_timer] ''alice'' (1301/10) False =
     ([''alice'' \<mapsto> \<lparr>first_seen = 1301/10, last_seen = 1301/10, paused_at = None,
                       accumulated_time = Some 0\<rparr>], 0)
   \<and> update_person_timer [''alice'' \<mapsto> alice_timer] ''alice'' 130 False =
     ([''alice'' \<mapsto> \<lparr>first_seen = 100, last_seen = 130, paused_at = None,
                       accumulated_time = Some 0\<rparr>], 30)"
proof -
  have a: "''alice'' \<noteq> ''unknown''" "''alice'' \<noteq> []"
    "[''alice'' \<mapsto> alice_timer] ''alice'' = Some alice_timer" by simp_all
  have 1: "update_person_timer [''alice'' \<mapsto> alice_timer] ''alice'' (1301/10) False =
     ([''alice'' \<mapsto> \<lparr>first_seen = 1301/10, last_seen = 1301/10, paused_at = None,
                       accumulated_time = Some 0\<rparr>], 0)"
    using absence_reset [OF a(1) a(2), of "[''alice'' \<mapsto> alice_timer]" alice_timer "1301/10" False]
    by (simp add: alice_timer_def)
  obtain t' where t': "fst (update_person_timer [''alice'' \<mapsto> alice_timer] ''alice'' 130 False)
        = [''alice'' \<mapsto> t']" "last_seen t' = 130" "first_seen t' = 100" "paused_at t' = None"
     "accumulated_time t' = Some 0"
     "snd (update_person_timer [''alice'' \<mapsto> alice_timer] ''alice'' 130 False) = py_int (130 - first_seen t')"
    using absence_reset [OF a(1) a(2), of "[''alice'' \<mapsto> alice_timer]" alice_timer 130 False]
    by (auto simp: alice_timer_def)
  have "t' = \<lparr>first_seen = 100, last_seen = 130, paused_at = None, accumulated_time = Some 0\<rparr>"
    using t' by (cases t') simp
  moreover have "py_int (130 - first_seen t') = 30" using t'(3) by (simp add: py_int_def)
  ultimately have 2: "update_person_timer [''alice'' \<mapsto> alice_timer] ''alice'' 130 False =
     ([''alice'' \<mapsto> \<lparr>first_seen = 100, last_seen = 130, paused_at = None,
                       accumulated_time = Some 0\<rparr>], 30)"
    using t'(1) t'(6) by (simp add: prod_eq_iff)
  show ?thesis using 1 2 by simp
qed

theorem resume_continuity_witness:
  "\<exists>t'. fst (timer_calls [''alice'' \<mapsto> alice_timer] ''alice''
               [(125, True), (130, True), (135, True), (135, False)]) ''alice'' = Some t'
      \<and> first_seen t' = 110 \<and> paused_at t' = None
      \<and> last (snd (timer_calls [''alice'' \<mapsto> alice_timer] ''alice''
               [(125, True), (130, True), (135, True), (135, False)])) = 25"
proof -
  have a: "''alice'' \<noteq> ''unknown''" "''alice'' \<noteq> []" by simp_all
  have b: "[''alice'' \<mapsto> alice_timer] ''alice'' = Some alice_timer" by simp
  have c: "paused_at alice_timer = None" by (simp add: alice_timer_def)
  have d: "within_gap (last_seen alice_timer) (125 # [130, 135] @ [135])"
    by (simp add: alice_timer_def RESET_THRESHOLD_def)
  show ?thesis
    using resume_continuity [of "''alice''" "[''alice'' \<mapsto> alice_timer]" alice_timer 125 "[130, 135]" 135] a b c d
    by (auto simp: alice_timer_def py_int_def simp del: timer_calls.simps)
qed

section \<open>Properties of the eye-state association\<close>

subsection \<open>Geometry of the intersection\<close>

lemma intersection_inside:
  assumes "has_intersection b e"
  shows "0 < area (intersection b e)" "area (intersection b e) \<le> area b"
    "area (intersection b e) \<le> area e"
proof -
  obtain x1 y1 x2 y2 where b: "b = (x1, y1, x2, y2)" by (cases b) auto
  obtain ex1 ey1 ex2 ey2 where e: "e = (ex1, ey1, ex2, ey2)" by (cases e) auto
  let ?w = "min x2 ex2 - max x1 ex1" and ?h = "min y2 ey2 - max y1 ey1"
  have w: "0 < ?w" and h: "0 < ?h"
    using assms by (simp_all add: has_intersection_def intersection_def b e)
  have ia: "area (intersection b e) = ?w * ?h"
    by (simp add: area_def intersection_def b e)
  show "0 < area (intersection b e)" using w h ia by simp
  have "?w * ?h \<le> (x2 - x1) * (y2 - y1)"
    by (rule mult_mono) (use w h in auto)
  then show "area (intersection b e) \<le> area b" unfolding ia by (simp add: area_def b)
  have "?w * ?h \<le> (ex2 - ex1) * (ey2 - ey1)"
    by (rule mult_mono) (use w h in auto)
  then show "area (intersection b e) \<le> area e" unfolding ia by (simp add: area_def e)
qed

lemma union_area_pos: "has_intersection b e \<Longrightarrow> 0 < union_area b e"
  using intersection_inside [of b e] by (simp add: union_area_def)

lemma zero_area_no_intersection:
  assumes "area b = 0 \<or> area e = 0"
  shows "\<not> has_intersection b e"
  using assms intersection_inside [of b e] by auto

subsection \<open>The loop and the maximum\<close>

lemma ious_loop_eq:
  "ious_loop b ious faces =
     Inr (ious @ map (\<lambda>f. (iou b (fd_bbox f), f))
                    (filter (\<lambda>f. has_intersection b (fd_bbox f)) faces))"
proof (induction faces arbitrary: ious)
  case Nil
  show ?case by simp
next
  case (Cons f fs)
  show ?case
  proof (cases "has_intersection b (fd_bbox f)")
    case True
    then have "union_area b (fd_bbox f) \<noteq> 0" using union_area_pos [of b "fd_bbox f"] by simp
    then show ?thesis using True Cons.IH by simp
  next
    case False
    then show ?thesis using Cons.IH by simp
  qed
qed




lemma match_eye_openness_eq:
  "match_eye_openness (Some faces) b =
     (case map (\<lambda>f. (iou b (fd_bbox f), f)) (filter (\<lambda>f. has_intersection b (fd_bbox f)) faces) of
        [] \<Rightarrow> Inr None
      | x # xs \<Rightarrow> Inr (if fst (py_max_key x xs) > 4 / 10 then Some (snd (py_max_key x xs)) else None))"
  by (simp add: match_eye_openness_def ious_loop_eq Let_def split: list.splits)

lemma match_eye_openness_returns: "\<exists>r. match_eye_openness eo b = Inr r"
proof (cases eo)
  case None
  then show ?thesis by (simp add: match_eye_openness_def)
next
  case (Some faces)
  then show ?thesis by (simp add: match_eye_openness_eq split: list.splits)
qed

text \<open>
  C9 (no division by zero).  Where line 152 finds an intersection, the intersection area and
  the divisor of line 156 are strictly positive; a box of area zero intersects nothing; hence
  neither the loop nor \<open>match_eye_openness\<close> ever raises \<open>ZeroDivisionError\<close>.
\<close>

theorem iou_division_guarded:
  "(has_intersection b e \<longrightarrow> 0 < area (intersection b e) \<and> 0 < union_area b e)
   \<and> (area b = 0 \<or> area e = 0 \<longrightarrow> \<not> has_intersection b e)
   \<and> (\<exists>l. ious_loop b ious faces = Inr l)
   \<and> (\<exists>r. match_eye_openness eo b = Inr r)"
proof (intro conjI impI)
  assume "has_intersection b e"
  then show "0 < area (intersection b e)" "0 < union_area b e"
    by (simp_all add: intersection_inside union_area_pos)
next
  assume "area b = 0 \<or> area e = 0"
  then show "\<not> has_intersection b e" by (rule zero_area_no_intersection)
next
  show "\<exists>l. ious_loop b ious faces = Inr l" by (simp add: ious_loop_eq)
next
  show "\<exists>r. match_eye_openness eo b = Inr r" by (rule match_eye_openness_returns)
qed

subsection \<open>Concrete boxes\<close>

lemma eval_boxes:
  "has_intersection track_box (5, 5, 15, 15)" "area (intersection track_box (5, 5, 15, 15)) = 25"
  "union_area track_box (5, 5, 15, 15) = 175"
  "area (3, 3, 3, 8) = 0" "\<not> has_intersection track_box (3, 3, 3, 8)"
  by (simp_all add: track_box_def has_intersection_def intersection_def iou_def union_area_def area_def)

theorem iou_division_guarded_witness:
  "has_intersection track_box (5, 5, 15, 15)
   \<and> 0 < area (intersection track_box (5, 5, 15, 15))
   \<and> 0 < union_area track_box (5, 5, 15, 15)
   \<and> area (3, 3, 3, 8) = 0
   \<and> \<not> has_intersection track_box (3, 3, 3, 8)
   \<and> match_eye_openness (Some [eyes_at (3, 3, 3, 8)]) track_box = Inr None"
proof -
  have a: "has_intersection track_box (5, 5, 15, 15)" by (rule eval_boxes(1))
  have z: "area (3, 3, 3, 8) = 0" by (rule eval_boxes(4))
  have 1: "0 < area (intersection track_box (5, 5, 15, 15)) \<and> 0 < union_area track_box (5, 5, 15, 15)"
    using iou_division_guarded [of track_box "(5, 5, 15, 15)" "[]" "[]" None] a by blast
  have 2: "\<not> has_intersection track_box (3, 3, 3, 8)"
    using iou_division_guarded [of track_box "(3, 3, 3, 8)" "[]" "[]" None] z by blast
  have 3: "match_eye_openness (Some [eyes_at (3, 3, 3, 8)]) track_box = Inr None"
    using 2 by (simp add: match_eye_openness_def eyes_at_def)
  show ?thesis using a z 1 2 3 by simp
qed

section \<open>Properties of the association in double precision\<close>

subsection \<open>The rounding\<close>

text \<open>
  The exponent computed from the bit lengths is the binary exponent, and a rounded value is
  within half a unit in the last place of the exact one.
\<close>

lemma pow2_pos: "0 < pow2 e"
  by (simp add: pow2_def)

lemma bitlen_real_bounds:
  assumes "1 \<le> (y::real)"
  shows "1 \<le> bitlen \<lfloor>y\<rfloor>" "2 ^ nat (bitlen \<lfloor>y\<rfloor> - 1) \<le> y" "y < 2 ^ nat (bitlen \<lfloor>y\<rfloor>)"
proof -
  let ?n = "\<lfloor>y\<rfloor>" and ?k = "bitlen \<lfloor>y\<rfloor>"
  have n: "0 < ?n" using assms by simp
  have b: "2 ^ nat (?k - 1) \<le> ?n" "?n < 2 ^ nat ?k"
    using bitlen_bounds [OF n] by simp_all
  show "1 \<le> ?k" using n by (simp add: bitlen_alt_def)
  have "of_int (2 ^ nat (?k - 1)) \<le> (of_int ?n :: real)"
    using b(1) by (simp only: of_int_le_iff)
  then have "(2::real) ^ nat (?k - 1) \<le> of_int ?n" by simp
  also have "\<dots> \<le> y" by simp
  finally show "2 ^ nat (?k - 1) \<le> y" .
  have "?n + 1 \<le> 2 ^ nat ?k" using b(2) by simp
  then have "of_int (?n + 1) \<le> (of_int (2 ^ nat ?k) :: real)"
    by (simp only: of_int_le_iff)
  then have "of_int ?n + 1 \<le> (2::real) ^ nat ?k" by simp
  moreover have "y < of_int ?n + 1" by linarith
  ultimately show "y < 2 ^ nat ?k" by linarith
qed

lemma pow_nat_pred:
  assumes "1 \<le> (k::int)"
  shows "(2::real) ^ nat k = 2 * 2 ^ nat (k - 1)"
proof -
  have "nat k = Suc (nat (k - 1))" using assms by simp
  then show ?thesis by simp
qed


lemma ilog2_bounds:
  assumes "0 < x"
  shows "pow2 (ilog2 x) \<le> x" and "x < pow2 (ilog2 x + 1)"
proof -
  have "pow2 (ilog2 x) \<le> x \<and> x < pow2 (ilog2 x + 1)"
  proof (cases "1 \<le> x")
    case True
    let ?k = "bitlen \<lfloor>x\<rfloor>"
    note b = bitlen_real_bounds [OF True]
    have i: "ilog2 x = ?k - 1" using True by (simp add: ilog2_def)
    have p1: "pow2 (?k - 1) = 2 ^ nat (?k - 1)" using b(1) by (simp add: pow2_def)
    have p2: "pow2 (?k - 1 + 1) = 2 ^ nat ?k" using b(1) by (simp add: pow2_def)
    show ?thesis unfolding i p1 p2 using b(2,3) by simp
  next
    case False
    let ?k = "bitlen \<lfloor>1 / x\<rfloor>"
    have y: "1 \<le> 1 / x" using False assms by simp
    note b = bitlen_real_bounds [OF y]
    have xle: "x * 2 ^ nat (?k - 1) \<le> 1"
    proof -
      have "x * 2 ^ nat (?k - 1) \<le> x * (1 / x)"
        by (rule mult_left_mono [OF b(2)]) (use assms in simp)
      then show ?thesis using assms by simp
    qed
    have xgt: "1 < x * 2 ^ nat ?k"
    proof -
      have "x * (1 / x) < x * 2 ^ nat ?k"
        by (rule mult_strict_left_mono [OF b(3) assms])
      then show ?thesis using assms by simp
    qed
    show ?thesis
    proof (cases "x * 2 ^ nat (?k - 1) = 1")
      case True
      have k2: "2 \<le> ?k"
      proof (rule ccontr)
        assume "\<not> 2 \<le> ?k"
        then have "?k = 1" using b(1) by simp
        then have "x = 1" using True by simp
        then show False using False by simp
      qed
      have i: "ilog2 x = 1 - ?k" using False True by (simp add: ilog2_def Let_def)
      have p1: "pow2 (1 - ?k) = 1 / 2 ^ nat (?k - 1)"
        using k2 by (simp add: pow2_def)
      have p2: "pow2 (1 - ?k + 1) = 2 / 2 ^ nat (?k - 1)"
      proof (cases "?k = 2")
        case True
        then show ?thesis by (simp add: pow2_def)
      next
        case k3: False
        have "(2::real) ^ nat (?k - 1) = 2 * 2 ^ nat (?k - 1 - 1)"
          by (rule pow_nat_pred) (use k2 in simp)
        moreover have "nat (- (1 - ?k + 1)) = nat (?k - 1 - 1)" by simp
        ultimately show ?thesis using k2 k3 by (simp add: pow2_def)
      qed
      have x: "x = 1 / 2 ^ nat (?k - 1)"
      proof -
        have "x * 2 ^ nat (?k - 1) / 2 ^ nat (?k - 1) = 1 / 2 ^ nat (?k - 1)"
          by (simp only: True)
        then show ?thesis by simp
      qed
      have pos: "0 < 1 / (2::real) ^ nat (?k - 1)" by simp
      show ?thesis unfolding i p1 p2 using x pos by simp
    next
      case neq: False
      have i: "ilog2 x = - ?k" using False neq by (simp add: ilog2_def Let_def)
      have p1: "pow2 (- ?k) = 1 / 2 ^ nat ?k"
        using b(1) by (simp add: pow2_def)
      have p2: "pow2 (- ?k + 1) = 1 / 2 ^ nat (?k - 1)"
      proof (cases "?k = 1")
        case True
        then show ?thesis by (simp add: pow2_def)
      next
        case k2: False
        have "nat (- (- ?k + 1)) = nat (?k - 1)" by simp
        then show ?thesis using b(1) k2 by (simp add: pow2_def)
      qed
      have lt: "x * 2 ^ nat (?k - 1) < 1" using xle neq by simp
      have a: "1 / 2 ^ nat ?k \<le> x"
      proof -
        have "1 / 2 ^ nat ?k < x * 2 ^ nat ?k / 2 ^ nat ?k"
          by (rule divide_strict_right_mono [OF xgt]) simp
        then show ?thesis by simp
      qed
      have c: "x < 1 / 2 ^ nat (?k - 1)"
      proof -
        have "x * 2 ^ nat (?k - 1) / 2 ^ nat (?k - 1) < 1 / 2 ^ nat (?k - 1)"
          by (rule divide_strict_right_mono [OF lt]) simp
        then show ?thesis by simp
      qed
      show ?thesis unfolding i p1 p2 using a c by simp
    qed
  qed
  then show "pow2 (ilog2 x) \<le> x" and "x < pow2 (ilog2 x + 1)" by simp_all
qed

lemma round_half_even_near: "\<bar>of_int (round_half_even y) - y\<bar> \<le> 1 / 2"
proof -
  let ?f = "\<lfloor>y\<rfloor>"
  have f: "of_int ?f \<le> y" "y < of_int ?f + 1" by linarith+
  consider "y - of_int ?f < 1 / 2" | "1 / 2 < y - of_int ?f" | "y - of_int ?f = 1 / 2" by linarith
  then show ?thesis
  proof cases
    case 1
    then have "round_half_even y = ?f" by (simp add: round_half_even_def Let_def)
    then show ?thesis using 1 f by simp
  next
    case 2
    then have "round_half_even y = ?f + 1" by (simp add: round_half_even_def Let_def)
    then show ?thesis using 2 f by simp
  next
    case 3
    then have "round_half_even y = ?f \<or> round_half_even y = ?f + 1"
      by (simp add: round_half_even_def Let_def)
    then show ?thesis using 3 by auto
  qed
qed


lemma fl_near:
  assumes "fl x = Some y"
  shows "\<bar>y - x\<bar> \<le> pow2 (max (ilog2 \<bar>x\<bar> - 52) (- 1074)) / 2"
proof (cases "x = 0")
  case True
  then show ?thesis using assms pow2_pos [of "max (ilog2 \<bar>x\<bar> - 52) (- 1074)"]
    by (simp add: fl_def)
next
  case False
  let ?u = "pow2 (max (ilog2 \<bar>x\<bar> - 52) (- 1074))"
  let ?r = "of_int (round_half_even (\<bar>x\<bar> / ?u)) :: real"
  have u: "0 < ?u" by (rule pow2_pos)
  have y: "y = (if x < 0 then - (?r * ?u) else ?r * ?u)"
    using assms False by (simp add: fl_def Let_def split: if_splits)
  have "\<bar>?r * ?u - \<bar>x\<bar>\<bar> = \<bar>?r - \<bar>x\<bar> / ?u\<bar> * ?u"
  proof -
    have "?r * ?u - \<bar>x\<bar> = (?r - \<bar>x\<bar> / ?u) * ?u" using u by (simp add: field_simps)
    then show ?thesis using u by (simp add: abs_mult)
  qed
  also have "\<dots> \<le> 1 / 2 * ?u"
    by (rule mult_right_mono [OF round_half_even_near]) (use u in simp)
  finally have e: "\<bar>?r * ?u - \<bar>x\<bar>\<bar> \<le> ?u / 2" by simp
  show ?thesis
  proof (cases "x < 0")
    case True
    then have "y - x = - (?r * ?u - \<bar>x\<bar>)" using y by simp
    then have a: "\<bar>y - x\<bar> = \<bar>?r * ?u - \<bar>x\<bar>\<bar>" by (simp only: abs_minus_cancel)
    show ?thesis unfolding a by (rule e)
  next
    case False
    then have "y - x = ?r * ?u - \<bar>x\<bar>" using y by simp
    then have a: "\<bar>y - x\<bar> = \<bar>?r * ?u - \<bar>x\<bar>\<bar>" by (simp only:)
    show ?thesis unfolding a by (rule e)
  qed
qed

subsection \<open>The loop and the selection\<close>




subsection \<open>Concrete boxes in double precision\<close>

lemma double_literals:
  "fl (4 / 10) = Some double_0_4" "fl (1323 / 10) = Some double_132_3"
  by code_simp+

text \<open>
  Roundings as Python prints them: \<open>1/3\<close> and \<open>-1/3\<close>; an integer needs no rounding; the
  ties \<open>2^53 + 1\<close> and \<open>2^53 + 3\<close> go to the even significands \<open>2^53\<close> and \<open>2^53 + 4\<close>.
\<close>

lemma fl_examples:
  "fl (1 / 3) = Some (6004799503160661 / 18014398509481984)"
  "fl (- 1 / 3) = Some (- 6004799503160661 / 18014398509481984)"
  "fl 33075 = Some 33075"
  "fl 9007199254740993 = Some 9007199254740992"
  "fl 9007199254740995 = Some 9007199254740996"
  by code_simp+




section \<open>Properties of the closure debounce\<close>

lemma eye_closure_closed:
  assumes "\<not> fd_left_eye_open d \<or> \<not> fd_right_eye_open d"
  shows "cumulative_closed_time (eye_closure tr (Some d) now) =
           cumulative_closed_time tr + (now - (case last_eye_check_time tr of None \<Rightarrow> now | Some l \<Rightarrow> l))"
    and "last_eye_check_time (eye_closure tr (Some d) now) = Some now"
    and "3 \<le> cumulative_closed_time (eye_closure tr (Some d) now)
           \<Longrightarrow> timer_paused (eye_closure tr (Some d) now)"
  using assms by (auto simp: eye_closure_def Let_def)

lemma eye_closure_open:
  assumes "fd_left_eye_open d" "fd_right_eye_open d"
  shows "cumulative_closed_time (eye_closure tr (Some d) now) = 0"
    and "\<not> timer_paused (eye_closure tr (Some d) now)"
    and "last_eye_check_time (eye_closure tr (Some d) now) = Some now"
  using assms by (simp_all add: eye_closure_def Let_def)

lemma eye_closure_unmatched:
  "eye_closure tr None now = tr\<lparr>left_eye_open := ''unknown'', right_eye_open := ''unknown''\<rparr>"
  by (simp add: eye_closure_def)

lemma eye_frames_closed:
  assumes "fs \<noteq> []"
    and "\<forall>(d, t) \<in> set fs. \<not> fd_left_eye_open d \<or> \<not> fd_right_eye_open d"
  shows "cumulative_closed_time (eye_frames tr fs) =
           cumulative_closed_time tr +
           (snd (last fs) - (case last_eye_check_time tr of None \<Rightarrow> snd (hd fs) | Some l \<Rightarrow> l))
         \<and> (3 \<le> cumulative_closed_time (eye_frames tr fs) \<longrightarrow> timer_paused (eye_frames tr fs))"
  using assms
proof (induction fs arbitrary: tr)
  case Nil
  then show ?case by simp
next
  case (Cons f fs)
  obtain d t where f: "f = (d, t)" by (cases f)
  have closed: "\<not> fd_left_eye_open d \<or> \<not> fd_right_eye_open d"
    using Cons.prems(2) f by simp
  let ?tr1 = "eye_closure tr (Some d) t"
  show ?case
  proof (cases fs)
    case Nil
    then show ?thesis
      using eye_closure_closed [OF closed, of tr t] f by (simp split: option.splits)
  next
    case (Cons g gs)
    have "cumulative_closed_time (eye_frames ?tr1 fs) =
            cumulative_closed_time ?tr1 +
            (snd (last fs) - (case last_eye_check_time ?tr1 of None \<Rightarrow> snd (hd fs) | Some l \<Rightarrow> l))
          \<and> (3 \<le> cumulative_closed_time (eye_frames ?tr1 fs) \<longrightarrow> timer_paused (eye_frames ?tr1 fs))"
      by (rule Cons.IH) (use Cons Cons.prems(2) in simp_all)
    then show ?thesis
      using eye_closure_closed(1,2) [OF closed, of tr t] f Cons by (simp split: option.splits)
  qed
qed

text \<open>
  C3 (closure debounce).  A track whose closed time is not negative and whose last eye check
  is not later than the first frame is evaluated on a non-empty run of frames, each with a
  matched eye state reporting at least one eye closed, the last frame at least 3 s (so also
  3.1 s) after the first.  After the run \<open>timer_paused\<close> holds and \<open>cumulative_closed_time\<close>
  is at least 3.  A following frame that reports both eyes open sets
  \<open>cumulative_closed_time\<close> to 0 and \<open>timer_paused\<close> to false, and does so on any track
  \<open>tr'\<close> at all.
\<close>

theorem closure_debounce:
  assumes "fs \<noteq> []"
    and "\<forall>(d, t) \<in> set fs. \<not> fd_left_eye_open d \<or> \<not> fd_right_eye_open d"
    and "0 \<le> cumulative_closed_time tr"
    and "case last_eye_check_time tr of None \<Rightarrow> True | Some l \<Rightarrow> l \<le> snd (hd fs)"
    and "3 \<le> snd (last fs) - snd (hd fs)"
    and "fd_left_eye_open d'" "fd_right_eye_open d'"
  shows "timer_paused (eye_frames tr fs)
       \<and> 3 \<le> cumulative_closed_time (eye_frames tr fs)
       \<and> cumulative_closed_time (eye_closure (eye_frames tr fs) (Some d') now) = 0
       \<and> \<not> timer_paused (eye_closure (eye_frames tr fs) (Some d') now)
       \<and> cumulative_closed_time (eye_closure tr' (Some d') now) = 0
       \<and> \<not> timer_paused (eye_closure tr' (Some d') now)"
proof -
  have run: "cumulative_closed_time (eye_frames tr fs) =
           cumulative_closed_time tr +
           (snd (last fs) - (case last_eye_check_time tr of None \<Rightarrow> snd (hd fs) | Some l \<Rightarrow> l))"
    and p: "3 \<le> cumulative_closed_time (eye_frames tr fs) \<longrightarrow> timer_paused (eye_frames tr fs)"
    using eye_frames_closed [OF assms(1,2), of tr] by simp_all
  have "snd (last fs) - snd (hd fs) \<le>
          snd (last fs) - (case last_eye_check_time tr of None \<Rightarrow> snd (hd fs) | Some l \<Rightarrow> l)"
    using assms(4) by (simp split: option.splits)
  then have ge: "3 \<le> cumulative_closed_time (eye_frames tr fs)"
    using run assms(3,5) by linarith
  show ?thesis
    using ge p eye_closure_open(1,2) [OF assms(6,7)] by simp
qed

subsection \<open>Concrete runs\<close>

lemma eye_frames_eval:
  "eye_frames tr [(d1, t1), (d2, t2), (d3, t3)] =
     eye_closure (eye_closure (eye_closure tr (Some d1) t1) (Some d2) t2) (Some d3) t3"
  by simp

theorem closure_debounce_witness:
  "timer_paused (eye_frames (blank_track 1 (seen_at 1 None 10))
                   [(eyes_closed, 10), (eyes_closed, 12), (eyes_closed, 131 / 10)])
   \<and> cumulative_closed_time (eye_frames (blank_track 1 (seen_at 1 None 10))
                   [(eyes_closed, 10), (eyes_closed, 12), (eyes_closed, 131 / 10)]) = 31 / 10
   \<and> cumulative_closed_time (eye_closure (eye_frames (blank_track 1 (seen_at 1 None 10))
                   [(eyes_closed, 10), (eyes_closed, 12), (eyes_closed, 131 / 10)])
                   (Some eyes_open) (132 / 10)) = 0
   \<and> \<not> timer_paused (eye_closure (eye_frames (blank_track 1 (seen_at 1 None 10))
                   [(eyes_closed, 10), (eyes_closed, 12), (eyes_closed, 131 / 10)])
                   (Some eyes_open) (132 / 10))"
proof -
  let ?fs = "[(eyes_closed, 10), (eyes_closed, 12), (eyes_closed, 131 / 10 :: real)]"
  let ?tr = "blank_track 1 (seen_at 1 None 10)"
  have h: "?fs \<noteq> []"
    "\<forall>(d, t) \<in> set ?fs. \<not> fd_left_eye_open d \<or> \<not> fd_right_eye_open d"
    "0 \<le> cumulative_closed_time ?tr"
    "case last_eye_check_time ?tr of None \<Rightarrow> True | Some l \<Rightarrow> l \<le> snd (hd ?fs)"
    "3 \<le> snd (last ?fs) - snd (hd ?fs)"
    "fd_left_eye_open eyes_open" "fd_right_eye_open eyes_open"
    by (simp_all add: eyes_closed_def eyes_open_def blank_track_def)
  have v: "cumulative_closed_time (eye_frames ?tr ?fs) = 31 / 10"
    by (simp add: eye_closure_def eyes_closed_def blank_track_def Let_def)
  show ?thesis
    using closure_debounce [OF h, of "132 / 10" ?tr] v by simp
qed


section \<open>Properties of the sightings counter\<close>

lemma count_sighting_cases:
  "count_sighting self nm cur = Inl KeyError \<or>
   (\<exists>self'. count_sighting self nm cur = Inr self' \<and>
       record_people self' = (record_people self)(nm \<mapsto> cur) \<and>
       trackableObjects self' = trackableObjects self \<and>
       (\<forall>n. n \<noteq> nm \<longrightarrow> seen_people self' n = seen_people self n) \<and>
       (seen_people self' nm \<noteq> seen_people self nm \<longrightarrow>
          (case record_people self nm of None \<Rightarrow> True | Some prev \<Rightarrow> cur - prev > 15)))"
  by (auto simp: count_sighting_def split: option.splits)

lemma count_sighting_no_error:
  assumes "dom (record_people self) \<subseteq> dom (seen_people self)"
  shows "\<exists>self'. count_sighting self nm cur = Inr self' \<and>
           dom (record_people self') \<subseteq> dom (seen_people self')"
  using assms by (auto simp: count_sighting_def split: option.splits)

lemma count_sighting_within_window:
  assumes "record_people self nm = Some prev" "cur - prev \<le> 15"
  shows "count_sighting self nm cur = Inr (self\<lparr>record_people := (record_people self)(nm \<mapsto> cur)\<rparr>)"
  using assms by (simp add: count_sighting_def)

lemma sightings_no_error:
  "dom (record_people self) \<subseteq> dom (seen_people self) \<Longrightarrow> \<exists>self'. sightings self evs = Inr self'"
proof (induction evs arbitrary: self)
  case Nil
  show ?case by simp
next
  case (Cons ev evs)
  obtain nm cur where ev: "ev = (nm, cur)" by (cases ev)
  obtain self1 where s: "count_sighting self nm cur = Inr self1"
    "dom (record_people self1) \<subseteq> dom (seen_people self1)"
    using count_sighting_no_error [OF Cons.prems] by blast
  show ?case using Cons.IH [OF s(2)] s(1) ev by simp
qed

lemma increments_after_prev:
  assumes "record_people self nm = Some prev" "sorted (map snd evs)" "\<forall>t \<in> snd ` set evs. prev \<le> t"
  shows "\<forall>(n, t) \<in> set (increments self evs). n = nm \<longrightarrow> t - prev > 15"
  using assms
proof (induction evs arbitrary: self prev)
  case Nil
  show ?case by simp
next
  case (Cons ev evs)
  obtain m cur where ev: "ev = (m, cur)" by (cases ev)
  have later: "\<forall>t \<in> snd ` set evs. cur \<le> t" and srt: "sorted (map snd evs)"
    and pc: "prev \<le> cur" and pl: "\<forall>t \<in> snd ` set evs. prev \<le> t"
    using Cons.prems(2,3) ev by auto
  from count_sighting_cases [of self m cur] show ?case
  proof
    assume "count_sighting self m cur = Inl KeyError"
    then show ?thesis using ev by simp
  next
    assume "\<exists>self'. count_sighting self m cur = Inr self' \<and>
       record_people self' = (record_people self)(m \<mapsto> cur) \<and>
       trackableObjects self' = trackableObjects self \<and>
       (\<forall>n. n \<noteq> m \<longrightarrow> seen_people self' n = seen_people self n) \<and>
       (seen_people self' m \<noteq> seen_people self m \<longrightarrow>
          (case record_people self m of None \<Rightarrow> True | Some prev \<Rightarrow> cur - prev > 15))"
    then obtain self1 where s: "count_sighting self m cur = Inr self1"
      "record_people self1 = (record_people self)(m \<mapsto> cur)"
      "seen_people self1 m \<noteq> seen_people self m \<longrightarrow>
          (case record_people self m of None \<Rightarrow> True | Some prev \<Rightarrow> cur - prev > 15)"
      by blast
    have hd: "m = nm \<longrightarrow> seen_people self1 m \<noteq> seen_people self m \<longrightarrow> cur - prev > 15"
      using s(3) Cons.prems(1) by auto
    have tl: "\<forall>(n, t) \<in> set (increments self1 evs). n = nm \<longrightarrow> t - prev > 15"
    proof (cases "m = nm")
      case True
      have "\<forall>(n, t) \<in> set (increments self1 evs). n = nm \<longrightarrow> t - cur > 15"
        by (rule Cons.IH) (use True s(2) srt later in simp_all)
      then show ?thesis using pc by fastforce
    next
      case False
      show ?thesis
        by (rule Cons.IH) (use False s(2) Cons.prems(1) srt pl in simp_all)
    qed
    show ?thesis using s(1) hd tl ev by auto
  qed
qed

lemma increments_separated:
  assumes "sorted (map snd evs)"
    and "\<forall>nm prev. record_people self nm = Some prev \<longrightarrow> (\<forall>t \<in> snd ` set evs. prev \<le> t)"
  shows "sorted_wrt (\<lambda>(n1, t1) (n2, t2). n1 = n2 \<longrightarrow> t2 - t1 > 15) (increments self evs)"
  using assms
proof (induction evs arbitrary: self)
  case Nil
  show ?case by simp
next
  case (Cons ev evs)
  obtain m cur where ev: "ev = (m, cur)" by (cases ev)
  have later: "\<forall>t \<in> snd ` set evs. cur \<le> t" and srt: "sorted (map snd evs)"
    using Cons.prems(1) ev by auto
  from count_sighting_cases [of self m cur] show ?case
  proof
    assume "count_sighting self m cur = Inl KeyError"
    then show ?thesis using ev by simp
  next
    assume "\<exists>self'. count_sighting self m cur = Inr self' \<and>
       record_people self' = (record_people self)(m \<mapsto> cur) \<and>
       trackableObjects self' = trackableObjects self \<and>
       (\<forall>n. n \<noteq> m \<longrightarrow> seen_people self' n = seen_people self n) \<and>
       (seen_people self' m \<noteq> seen_people self m \<longrightarrow>
          (case record_people self m of None \<Rightarrow> True | Some prev \<Rightarrow> cur - prev > 15))"
    then obtain self1 where s: "count_sighting self m cur = Inr self1"
      "record_people self1 = (record_people self)(m \<mapsto> cur)"
      by blast
    have inv: "\<forall>nm prev. record_people self1 nm = Some prev \<longrightarrow> (\<forall>t \<in> snd ` set evs. prev \<le> t)"
      using s(2) later Cons.prems(2) by auto
    have tl: "sorted_wrt (\<lambda>(n1, t1) (n2, t2). n1 = n2 \<longrightarrow> t2 - t1 > 15) (increments self1 evs)"
      by (rule Cons.IH [OF srt inv])
    have hd: "\<forall>(n, t) \<in> set (increments self1 evs). n = m \<longrightarrow> t - cur > 15"
      by (rule increments_after_prev) (use s(2) srt later in simp_all)
    show ?thesis using s(1) tl hd ev by (auto simp: sorted_wrt_append)
  qed
qed

text \<open>
  C7 (one sighting per 15-second window).  The counters are well formed (every name with a
  recorded time has a count, as after \<open>__init__\<close> and every recognition since) and the clock
  does not run backwards over the recognitions \<open>evs\<close>.  Then no recognition raises; any two
  recognitions of the same name at which \<open>seen_people\<close> was incremented are more than 15 s
  apart; and a recognition at most 15 s after the previous recognition of the name leaves
  \<open>seen_people\<close> unchanged and only records the new time.
\<close>

theorem sightings_once_per_window:
  assumes "dom (record_people self) \<subseteq> dom (seen_people self)"
    and "sorted (map snd evs)"
    and "\<forall>nm prev. record_people self nm = Some prev \<longrightarrow> (\<forall>t \<in> snd ` set evs. prev \<le> t)"
  shows "(\<exists>self'. sightings self evs = Inr self')
       \<and> sorted_wrt (\<lambda>(n1, t1) (n2, t2). n1 = n2 \<longrightarrow> t2 - t1 > 15) (increments self evs)
       \<and> (\<forall>nm prev cur. record_people self nm = Some prev \<and> cur - prev \<le> 15 \<longrightarrow>
            (\<exists>self'. count_sighting self nm cur = Inr self' \<and> seen_people self' = seen_people self
                     \<and> record_people self' nm = Some cur))"
proof (intro conjI allI impI)
  show "\<exists>self'. sightings self evs = Inr self'" by (rule sightings_no_error [OF assms(1)])
  show "sorted_wrt (\<lambda>(n1, t1) (n2, t2). n1 = n2 \<longrightarrow> t2 - t1 > 15) (increments self evs)"
    by (rule increments_separated [OF assms(2,3)])
next
  fix nm prev cur
  assume "record_people self nm = Some prev \<and> cur - prev \<le> 15"
  then show "\<exists>self'. count_sighting self nm cur = Inr self' \<and> seen_people self' = seen_people self
                     \<and> record_people self' nm = Some cur"
    using count_sighting_within_window [of self nm prev cur] by simp
qed


theorem sightings_once_per_window_witness:
  "dom (record_people alice_seen) \<subseteq> dom (seen_people alice_seen)
   \<and> sorted (map snd [(''alice'', 10), (''alice'', 20), (''alice'', 36), (''alice'', 40), (''alice'', 60 :: real)])
   \<and> increments alice_seen [(''alice'', 10), (''alice'', 20), (''alice'', 36), (''alice'', 40), (''alice'', 60)]
       = [(''alice'', 36), (''alice'', 60)]
   \<and> (\<exists>self'. sightings alice_seen
         [(''alice'', 10), (''alice'', 20), (''alice'', 36), (''alice'', 40), (''alice'', 60)] = Inr self')
   \<and> sorted_wrt (\<lambda>(n1, t1) (n2, t2). n1 = n2 \<longrightarrow> t2 - t1 > 15)
        (increments alice_seen [(''alice'', 10), (''alice'', 20), (''alice'', 36), (''alice'', 40), (''alice'', 60)])
   \<and> (\<exists>self'. count_sighting alice_seen ''alice'' 10 = Inr self'
         \<and> seen_people self' = seen_people alice_seen \<and> record_people self' ''alice'' = Some 10)"
proof -
  let ?evs = "[(''alice'', 10), (''alice'', 20), (''alice'', 36), (''alice'', 40), (''alice'', 60 :: real)]"
  have h1: "dom (record_people alice_seen) \<subseteq> dom (seen_people alice_seen)"
    by (simp add: alice_seen_def init_analysis_def)
  have h2: "sorted (map snd ?evs)" by simp
  have h3: "\<forall>nm prev. record_people alice_seen nm = Some prev \<longrightarrow> (\<forall>t \<in> snd ` set ?evs. prev \<le> t)"
    by (simp add: alice_seen_def init_analysis_def)
  have h4: "record_people alice_seen ''alice'' = Some 0 \<and> (10::real) - 0 \<le> 15"
    by (simp add: alice_seen_def init_analysis_def)
  have inc: "increments alice_seen ?evs = [(''alice'', 36), (''alice'', 60)]"
    by (simp add: count_sighting_def alice_seen_def init_analysis_def)
  from sightings_once_per_window [OF h1 h2 h3] h4
  have "(\<exists>self'. sightings alice_seen ?evs = Inr self')
     \<and> sorted_wrt (\<lambda>(n1, t1) (n2, t2). n1 = n2 \<longrightarrow> t2 - t1 > 15) (increments alice_seen ?evs)
     \<and> (\<exists>self'. count_sighting alice_seen ''alice'' 10 = Inr self'
         \<and> seen_people self' = seen_people alice_seen \<and> record_people self' ''alice'' = Some 10)"
    by blast
  then show ?thesis using h1 h2 inc by simp
qed

section \<open>Properties of the reconciliation pass\<close>

subsection \<open>One tracker object\<close>

lemma count_sighting_registry:
  "count_sighting self nm cur = Inr self' \<Longrightarrow> trackableObjects self' = trackableObjects self"
  by (auto simp: count_sighting_def split: option.splits if_splits)

lemma resolve_identity_keeps:
  assumes "resolve_identity self tr found cur = Inr (self', tr')"
  shows "trackableObjects self' = trackableObjects self"
    and "live tr' = live tr"
    and "cumulative_closed_time tr' = cumulative_closed_time tr"
    and "timer_paused tr' = timer_paused tr"
    and "last_eye_check_time tr' = last_eye_check_time tr"
  using assms
  by (auto simp: resolve_identity_def split: if_splits option.splits sum.splits
      dest: count_sighting_registry)

lemma resolve_identity_recognized:
  "recognized tr \<Longrightarrow> resolve_identity self tr found cur = Inr (self, tr)"
  by (simp add: resolve_identity_def)

lemma resolve_identity_flag:
  assumes "\<not> recognized tr" "resolve_identity self tr found cur = Inr (self', tr')"
  shows "recognized tr' = (0 < score tr')"
  using assms
  by (auto simp: resolve_identity_def split: if_splits option.splits sum.splits)

lemma eye_closure_keeps:
  "live (eye_closure tr m now) = live tr"
  "recognized (eye_closure tr m now) = recognized tr"
  "name (eye_closure tr m now) = name tr"
  "pinfl (eye_closure tr m now) = pinfl tr"
  "score (eye_closure tr m now) = score tr"
  "image_path (eye_closure tr m now) = image_path tr"
  by (simp_all add: eye_closure_def Let_def split: option.splits)

text \<open>What \<open>process_object\<close> stores, spelled out.\<close>

lemma process_object_Inr:
  assumes "process_object T eo self obj = Inr self'"
  obtains m points self1 tr1 where
    "match_eye_openness eo (t_bbox obj) = Inr m"
    "facial5points (t_kps obj) = Inr points"
    "resolve_identity self
       ((lookup_track T self obj)\<lparr>bbox := t_bbox obj, kps := points, live := True, lost_count := 0\<rparr>)
       (t_person obj) (t_cur obj) = Inr (self1, tr1)"
    "self' = self1\<lparr>trackableObjects :=
        AList.update (t_id obj)
          (eye_closure (tr1\<lparr>age := t_age obj, gender := t_gender obj\<rparr>) m (t_now obj))
          (trackableObjects self1)\<rparr>"
  using assms
  by (auto simp: process_object_def Let_def split: sum.splits prod.splits)

lemma process_object_registry:
  assumes "process_object T eo self obj = Inr self'"
  shows "\<exists>tr'. map_of (trackableObjects self') = (map_of (trackableObjects self))(t_id obj \<mapsto> tr')
              \<and> live tr'"
    and "distinct (map fst (trackableObjects self)) \<Longrightarrow> distinct (map fst (trackableObjects self'))"
proof -
  from assms obtain m points self1 tr1 where
    r: "resolve_identity self
       ((lookup_track T self obj)\<lparr>bbox := t_bbox obj, kps := points, live := True, lost_count := 0\<rparr>)
       (t_person obj) (t_cur obj) = Inr (self1, tr1)"
    and s: "self' = self1\<lparr>trackableObjects :=
        AList.update (t_id obj)
          (eye_closure (tr1\<lparr>age := t_age obj, gender := t_gender obj\<rparr>) m (t_now obj))
          (trackableObjects self1)\<rparr>"
    by (rule process_object_Inr)
  have reg: "trackableObjects self1 = trackableObjects self" and lv: "live tr1"
    using resolve_identity_keeps(1,2) [OF r] by simp_all
  let ?tr = "eye_closure (tr1\<lparr>age := t_age obj, gender := t_gender obj\<rparr>) m (t_now obj)"
  have "map_of (trackableObjects self') = (map_of (trackableObjects self))(t_id obj \<mapsto> ?tr)"
    using s reg by (simp add: update_conv')
  moreover have "live ?tr" using lv by (simp add: eye_closure_keeps)
  ultimately show "\<exists>tr'. map_of (trackableObjects self') = (map_of (trackableObjects self))(t_id obj \<mapsto> tr')
              \<and> live tr'" by blast
  show "distinct (map fst (trackableObjects self'))" if "distinct (map fst (trackableObjects self))"
    using that s reg by (simp add: distinct_update)
qed

lemma process_object_recognized:
  assumes "process_object T eo self obj = Inr self'"
    and "map_of (trackableObjects self) (t_id obj) = Some tr" "recognized tr"
  shows "\<exists>tr'. map_of (trackableObjects self') (t_id obj) = Some tr' \<and> recognized tr'
           \<and> name tr' = name tr \<and> pinfl tr' = pinfl tr \<and> score tr' = score tr
           \<and> image_path tr' = image_path tr"
    and "seen_people self' = seen_people self" "record_people self' = record_people self"
proof -
  from assms(1) obtain m points self1 tr1 where
    r: "resolve_identity self
       ((lookup_track T self obj)\<lparr>bbox := t_bbox obj, kps := points, live := True, lost_count := 0\<rparr>)
       (t_person obj) (t_cur obj) = Inr (self1, tr1)"
    and s: "self' = self1\<lparr>trackableObjects :=
        AList.update (t_id obj)
          (eye_closure (tr1\<lparr>age := t_age obj, gender := t_gender obj\<rparr>) m (t_now obj))
          (trackableObjects self1)\<rparr>"
    by (rule process_object_Inr)
  have lk: "lookup_track T self obj = tr" using assms(2) by (simp add: lookup_track_def)
  have "self1 = self \<and> tr1 = tr\<lparr>bbox := t_bbox obj, kps := points, live := True, lost_count := 0\<rparr>"
    using r assms(3) by (simp add: lk resolve_identity_recognized)
  then have s1: "self1 = self"
    and t1: "tr1 = tr\<lparr>bbox := t_bbox obj, kps := points, live := True, lost_count := 0\<rparr>"
    by simp_all
  let ?tr = "eye_closure (tr1\<lparr>age := t_age obj, gender := t_gender obj\<rparr>) m (t_now obj)"
  have "map_of (trackableObjects self') (t_id obj) = Some ?tr"
    using s by (simp add: update_conv')
  moreover have "recognized ?tr \<and> name ?tr = name tr \<and> pinfl ?tr = pinfl tr \<and> score ?tr = score tr
           \<and> image_path ?tr = image_path tr"
    using assms(3) by (simp add: eye_closure_keeps t1)
  ultimately show "\<exists>tr'. map_of (trackableObjects self') (t_id obj) = Some tr' \<and> recognized tr'
           \<and> name tr' = name tr \<and> pinfl tr' = pinfl tr \<and> score tr' = score tr
           \<and> image_path tr' = image_path tr" by blast
  show "seen_people self' = seen_people self" "record_people self' = record_people self"
    using s s1 by simp_all
qed



subsection \<open>The loop over the tracker's output\<close>

lemma process_objects_registry_all:
  assumes "process_objects T eo self objs = Inr self'"
  shows "(\<forall>k \<in> t_id ` set objs. \<exists>tr. map_of (trackableObjects self') k = Some tr \<and> live tr)
       \<and> (\<forall>k. k \<notin> t_id ` set objs \<longrightarrow>
             map_of (trackableObjects self') k = map_of (trackableObjects self) k)
       \<and> (distinct (map fst (trackableObjects self)) \<longrightarrow> distinct (map fst (trackableObjects self')))"
  using assms
proof (induction objs arbitrary: self)
  case Nil
  then show ?case by simp
next
  case (Cons obj objs)
  from Cons.prems obtain self1 where
    one: "process_object T eo self obj = Inr self1" and rest: "process_objects T eo self1 objs = Inr self'"
    by (auto split: sum.splits)
  obtain tr1 where tr1: "map_of (trackableObjects self1) = (map_of (trackableObjects self))(t_id obj \<mapsto> tr1)"
    "live tr1"
    using process_object_registry(1) [OF one] by blast
  have d1: "distinct (map fst (trackableObjects self)) \<Longrightarrow> distinct (map fst (trackableObjects self1))"
    by (rule process_object_registry(2) [OF one])
  note ih = Cons.IH [OF rest]
  have a: "\<exists>tr. map_of (trackableObjects self') k = Some tr \<and> live tr"
    if "k \<in> t_id ` set (obj # objs)" for k
  proof (cases "k \<in> t_id ` set objs")
    case True
    then show ?thesis using ih by blast
  next
    case False
    then have "k = t_id obj" using that by auto
    moreover have "map_of (trackableObjects self') k = map_of (trackableObjects self1) k"
      using ih False by blast
    ultimately show ?thesis using tr1 by simp
  qed
  have b: "map_of (trackableObjects self') k = map_of (trackableObjects self) k"
    if "k \<notin> t_id ` set (obj # objs)" for k
  proof -
    have "map_of (trackableObjects self') k = map_of (trackableObjects self1) k"
      using ih that by auto
    then show ?thesis using tr1(1) that by simp
  qed
  have c: "distinct (map fst (trackableObjects self)) \<longrightarrow> distinct (map fst (trackableObjects self'))"
    using d1 ih by blast
  show ?case using a b c by blast
qed

lemma process_objects_registry:
  assumes "process_objects T eo self objs = Inr self'"
  shows "k \<in> t_id ` set objs \<Longrightarrow> \<exists>tr. map_of (trackableObjects self') k = Some tr \<and> live tr"
    and "k \<notin> t_id ` set objs \<Longrightarrow>
           map_of (trackableObjects self') k = map_of (trackableObjects self) k"
    and "distinct (map fst (trackableObjects self)) \<Longrightarrow> distinct (map fst (trackableObjects self'))"
proof -
  note all = process_objects_registry_all [OF assms]
  from all have 1: "\<forall>k \<in> t_id ` set objs. \<exists>tr. map_of (trackableObjects self') k = Some tr \<and> live tr"
    by (rule conjunct1)
  from all have 23: "(\<forall>k. k \<notin> t_id ` set objs \<longrightarrow>
             map_of (trackableObjects self') k = map_of (trackableObjects self) k)
       \<and> (distinct (map fst (trackableObjects self)) \<longrightarrow> distinct (map fst (trackableObjects self')))"
    by (rule conjunct2)
  show "\<exists>tr. map_of (trackableObjects self') k = Some tr \<and> live tr" if "k \<in> t_id ` set objs"
    using 1 that by (rule bspec)
  show "map_of (trackableObjects self') k = map_of (trackableObjects self) k"
    if "k \<notin> t_id ` set objs"
    using spec [OF conjunct1 [OF 23], of k] that by simp
  show "distinct (map fst (trackableObjects self'))" if "distinct (map fst (trackableObjects self))"
    using conjunct2 [OF 23] that by simp
qed

lemma process_objects_recognized:
  assumes "process_objects T eo self objs = Inr self'"
    and "map_of (trackableObjects self) k = Some tr" "recognized tr"
  shows "\<exists>tr'. map_of (trackableObjects self') k = Some tr' \<and> recognized tr'
           \<and> name tr' = name tr \<and> pinfl tr' = pinfl tr \<and> score tr' = score tr
           \<and> image_path tr' = image_path tr"
  using assms
proof (induction objs arbitrary: self tr)
  case Nil
  then show ?case by simp
next
  case (Cons obj objs)
  from Cons.prems(1) obtain self1 where
    one: "process_object T eo self obj = Inr self1" and rest: "process_objects T eo self1 objs = Inr self'"
    by (auto split: sum.splits)
  have "\<exists>tr1. map_of (trackableObjects self1) k = Some tr1 \<and> recognized tr1
           \<and> name tr1 = name tr \<and> pinfl tr1 = pinfl tr \<and> score tr1 = score tr
           \<and> image_path tr1 = image_path tr"
  proof (cases "t_id obj = k")
    case True
    then show ?thesis
      using process_object_recognized(1) [OF one, of tr] Cons.prems(2,3) by simp
  next
    case False
    then have "map_of (trackableObjects self1) k = Some tr"
      using process_object_registry(1) [OF one] Cons.prems(2) by auto
    then show ?thesis using Cons.prems(3) by simp
  qed
  then obtain tr1 where tr1: "map_of (trackableObjects self1) k = Some tr1" "recognized tr1"
    "name tr1 = name tr" "pinfl tr1 = pinfl tr" "score tr1 = score tr" "image_path tr1 = image_path tr"
    by blast
  show ?case using Cons.IH [OF rest tr1(1,2)] tr1(3-6) by simp
qed

subsection \<open>Deleting the dead records\<close>

lemma delete_dead_filter:
  assumes "distinct ks" "set ks \<subseteq> fst ` set reg"
  shows "delete_dead ks reg = Inr (filter (\<lambda>(k, tr). k \<notin> set ks) reg)"
  using assms
proof (induction ks arbitrary: reg)
  case Nil
  then show ?case by simp
next
  case (Cons k ks)
  have "k \<in> fst ` set reg" using Cons.prems(2) by simp
  then obtain v where v: "map_of reg k = Some v"
    by (metis domD dom_map_of_conv_image_fst)
  have del: "AList.delete k reg = filter (\<lambda>(k', tr). k' \<noteq> k) reg"
    by (induction reg) auto
  have sub: "set ks \<subseteq> fst ` set (AList.delete k reg)"
  proof
    fix x assume x: "x \<in> set ks"
    then have "x \<noteq> k" using Cons.prems(1) by auto
    moreover obtain b where "(x, b) \<in> set reg" using x Cons.prems(2) by force
    ultimately have "(x, b) \<in> set (AList.delete k reg)" by (simp add: del)
    then show "x \<in> fst ` set (AList.delete k reg)" by force
  qed
  have "delete_dead ks (AList.delete k reg) = Inr (filter (\<lambda>(k', tr). k' \<notin> set ks) (AList.delete k reg))"
    by (rule Cons.IH) (use Cons.prems(1) sub in simp_all)
  also have "filter (\<lambda>(k', tr). k' \<notin> set ks) (AList.delete k reg) =
             filter (\<lambda>(k', tr). k' \<notin> set (k # ks)) reg"
    by (auto simp: del intro: filter_cong)
  finally show ?case using v by simp
qed

lemma delete_dead_live:
  assumes "distinct (map fst reg)"
  shows "delete_dead (map fst (filter (\<lambda>(k, tr). \<not> live tr) reg)) reg
           = Inr (filter (\<lambda>(k, tr). live tr) reg)"
proof -
  let ?dead = "map fst (filter (\<lambda>(k, tr). \<not> live tr) reg)"
  have d: "distinct ?dead" using assms by (simp add: distinct_map_filter)
  have s: "set ?dead \<subseteq> fst ` set reg" by auto
  have "filter (\<lambda>(k, tr). k \<notin> set ?dead) reg = filter (\<lambda>(k, tr). live tr) reg"
  proof (rule filter_cong [OF refl])
    fix x assume x: "x \<in> set reg"
    obtain k tr where kt: "x = (k, tr)" by (cases x)
    have "k \<in> set ?dead \<longleftrightarrow> \<not> live tr"
    proof
      assume "k \<in> set ?dead"
      then obtain tr2 where "(k, tr2) \<in> set reg" "\<not> live tr2" by auto
      moreover have "tr2 = tr"
        using assms x kt calculation(1) by (meson eq_key_imp_eq_value)
      ultimately show "\<not> live tr" by simp
    next
      assume "\<not> live tr"
      then show "k \<in> set ?dead" using x kt by force
    qed
    then show "(case x of (k, tr) \<Rightarrow> k \<notin> set ?dead) = (case x of (k, tr) \<Rightarrow> live tr)"
      using kt by simp
  qed
  then show ?thesis using delete_dead_filter [OF d s] by simp
qed

lemma map_of_filter_live:
  "distinct (map fst reg) \<Longrightarrow>
   map_of (filter (\<lambda>(k, tr). live tr) reg) k =
     (case map_of reg k of None \<Rightarrow> None | Some tr \<Rightarrow> if live tr then Some tr else None)"
proof (induction reg)
  case Nil
  show ?case by simp
next
  case (Cons x reg)
  obtain a b where x: "x = (a, b)" by (cases x)
  have na: "map_of reg a = None"
    using Cons.prems x by (simp add: map_of_eq_None_iff)
  show ?case using Cons x na by (auto split: option.splits)
qed

subsection \<open>One frame\<close>

lemma get_Inr:
  assumes "get T self fr = Inr self'" "distinct (map fst (trackableObjects self))"
  obtains self1 where
    "process_objects T (eye_opennesses fr)
       (self\<lparr>trackableObjects := map (\<lambda>(objectID, tr). (objectID, tr\<lparr>live := False\<rparr>))
                                   (trackableObjects self)\<rparr>) (objects fr) = Inr self1"
    "distinct (map fst (trackableObjects self1))"
    "self' = self1\<lparr>trackableObjects := filter (\<lambda>(k, tr). live tr) (trackableObjects self1)\<rparr>"
proof -
  let ?self0 = "self\<lparr>trackableObjects := map (\<lambda>(objectID, tr). (objectID, tr\<lparr>live := False\<rparr>))
                                   (trackableObjects self)\<rparr>"
  from assms(1) obtain self1 where
    p: "process_objects T (eye_opennesses fr) ?self0 (objects fr) = Inr self1"
    by (auto simp: get_def Let_def split: sum.splits)
  have "map fst (trackableObjects ?self0) = map fst (trackableObjects self)"
    by (induction "trackableObjects self") (auto simp: split_def comp_def)
  then have "distinct (map fst (trackableObjects ?self0))"
    using assms(2) by (simp only:)
  then have d: "distinct (map fst (trackableObjects self1))"
    by (rule process_objects_registry(3) [OF p])
  have "self' = self1\<lparr>trackableObjects := filter (\<lambda>(k, tr). live tr) (trackableObjects self1)\<rparr>"
    using assms(1) p delete_dead_live [OF d] by (simp add: get_def Let_def)
  with p d show ?thesis by (rule that)
qed


lemma map_of_mark_dead:
  "map_of (map (\<lambda>(objectID, tr). (objectID, tr\<lparr>live := False\<rparr>)) reg) k =
     map_option (\<lambda>tr. tr\<lparr>live := False\<rparr>) (map_of reg k)"
  by (induction reg) auto

lemma get_registry:
  assumes "get T self fr = Inr self'" "distinct (map fst (trackableObjects self))"
  shows "k \<notin> t_id ` set (objects fr) \<Longrightarrow> map_of (trackableObjects self') k = None"
    and "k \<in> t_id ` set (objects fr) \<Longrightarrow> \<exists>tr. map_of (trackableObjects self') k = Some tr \<and> live tr"
    and "distinct (map fst (trackableObjects self'))"
    and "\<forall>(j, tr) \<in> set (trackableObjects self'). live tr"
proof -
  let ?reg0 = "map (\<lambda>(objectID, tr). (objectID, tr\<lparr>live := False\<rparr>)) (trackableObjects self)"
  let ?self0 = "self\<lparr>trackableObjects := ?reg0\<rparr>"
  from assms obtain self1 where
    p: "process_objects T (eye_opennesses fr) ?self0 (objects fr) = Inr self1"
    and d: "distinct (map fst (trackableObjects self1))"
    and s: "self' = self1\<lparr>trackableObjects := filter (\<lambda>(k, tr). live tr) (trackableObjects self1)\<rparr>"
    by (rule get_Inr)
  have reg': "trackableObjects self' = filter (\<lambda>(k, tr). live tr) (trackableObjects self1)"
    by (simp only: s) simp
  have reg0: "trackableObjects ?self0 = ?reg0" by simp
  have m: "map_of (trackableObjects self') j =
     (case map_of (trackableObjects self1) j of None \<Rightarrow> None
      | Some tr \<Rightarrow> if live tr then Some tr else None)" for j
    unfolding reg' by (rule map_of_filter_live [OF d])
  show "map_of (trackableObjects self') k = None" if "k \<notin> t_id ` set (objects fr)"
  proof -
    have "map_of (trackableObjects self1) k = map_of (trackableObjects ?self0) k"
      by (rule process_objects_registry(2) [OF p that])
    also have "\<dots> = map_option (\<lambda>tr. tr\<lparr>live := False\<rparr>) (map_of (trackableObjects self) k)"
      unfolding reg0 by (rule map_of_mark_dead)
    finally have e: "map_of (trackableObjects self1) k =
        map_option (\<lambda>tr. tr\<lparr>live := False\<rparr>) (map_of (trackableObjects self) k)" .
    show ?thesis
    proof (cases "map_of (trackableObjects self) k")
      case None
      then show ?thesis using e m [of k] by simp
    next
      case (Some tr)
      then show ?thesis using e m [of k] by simp
    qed
  qed
  show "\<exists>tr. map_of (trackableObjects self') k = Some tr \<and> live tr"
    if kin: "k \<in> t_id ` set (objects fr)"
  proof -
    obtain tr where "map_of (trackableObjects self1) k = Some tr" "live tr"
      using process_objects_registry(1) [OF p kin] by (elim exE conjE)
    then show ?thesis using m [of k] by simp
  qed
  show "distinct (map fst (trackableObjects self'))"
    unfolding reg' using d by (rule distinct_map_filter)
  show "\<forall>(j, tr) \<in> set (trackableObjects self'). live tr"
    unfolding reg' by auto
qed

text \<open>
  C8 (track purge).  When a reconciliation pass completes, the ids under which the registry
  holds a record are exactly the ids the tracker confirmed in this frame, each once, and
  every record left is marked live: a record not confirmed is gone.
\<close>

theorem registry_is_confirmed_tracks:
  assumes "distinct (map fst (trackableObjects self))"
    and "get T self fr = Inr self'"
  shows "set (map fst (trackableObjects self')) = t_id ` set (objects fr)
       \<and> distinct (map fst (trackableObjects self'))
       \<and> (\<forall>(k, tr) \<in> set (trackableObjects self'). live tr)"
proof -
  note g = get_registry [OF assms(2,1)]
  have "dom (map_of (trackableObjects self')) = t_id ` set (objects fr)"
  proof (rule set_eqI)
    fix k
    show "k \<in> dom (map_of (trackableObjects self')) \<longleftrightarrow> k \<in> t_id ` set (objects fr)"
    proof (cases "k \<in> t_id ` set (objects fr)")
      case True
      then show ?thesis using g(2) [of k] by (auto simp: domIff)
    next
      case False
      then show ?thesis using g(1) [of k] by (simp add: domIff)
    qed
  qed
  then have "set (map fst (trackableObjects self')) = t_id ` set (objects fr)"
    by (simp add: dom_map_of_conv_image_fst)
  then show ?thesis using g(3,4) by simp
qed

subsection \<open>The pass completes on well-formed input\<close>

lemma process_object_completes:
  assumes "10 \<le> length (t_kps obj)" "dom (record_people self) \<subseteq> dom (seen_people self)"
  shows "\<exists>self'. process_object T eo self obj = Inr self'
           \<and> dom (record_people self') \<subseteq> dom (seen_people self')"
proof -
  obtain m where m: "match_eye_openness eo (t_bbox obj) = Inr m"
    using match_eye_openness_returns [of eo "t_bbox obj"] by blast
  have f: "facial5points (t_kps obj) = Inr (map (\<lambda>j. (t_kps obj ! j, t_kps obj ! (j + 5))) [0..<5])"
    using assms(1) by (simp add: facial5points_def)
  let ?tr = "(lookup_track T self obj)\<lparr>bbox := t_bbox obj,
      kps := map (\<lambda>j. (t_kps obj ! j, t_kps obj ! (j + 5))) [0..<5], live := True, lost_count := 0\<rparr>"
  have "\<exists>self1 tr1. resolve_identity self ?tr (t_person obj) (t_cur obj) = Inr (self1, tr1)
          \<and> dom (record_people self1) \<subseteq> dom (seen_people self1)"
  proof (cases "\<not> recognized ?tr \<and> (\<exists>p. t_person obj = Some p \<and> p_score p > score ?tr)")
    case True
    then obtain p where p: "t_person obj = Some p" "p_score p > score ?tr" by blast
    obtain self1 where "count_sighting self (p_name p) (t_cur obj) = Inr self1"
      "dom (record_people self1) \<subseteq> dom (seen_people self1)"
      using count_sighting_no_error [OF assms(2)] by blast
    then show ?thesis using True p by (simp add: resolve_identity_def)
  next
    case False
    then show ?thesis using assms(2)
      by (auto simp: resolve_identity_def split: option.splits)
  qed
  then obtain self1 tr1 where r: "resolve_identity self ?tr (t_person obj) (t_cur obj) = Inr (self1, tr1)"
    "dom (record_people self1) \<subseteq> dom (seen_people self1)" by blast
  show ?thesis using m f r by (simp add: process_object_def Let_def)
qed

lemma process_objects_completes:
  assumes "\<forall>obj \<in> set objs. 10 \<le> length (t_kps obj)"
    "dom (record_people self) \<subseteq> dom (seen_people self)"
  shows "\<exists>self'. process_objects T eo self objs = Inr self'
           \<and> dom (record_people self') \<subseteq> dom (seen_people self')"
  using assms
proof (induction objs arbitrary: self)
  case Nil
  then show ?case by simp
next
  case (Cons obj objs)
  obtain self1 where s: "process_object T eo self obj = Inr self1"
    "dom (record_people self1) \<subseteq> dom (seen_people self1)"
    using process_object_completes [of obj self T eo] Cons.prems by auto
  show ?case using Cons.IH [OF _ s(2)] Cons.prems(1) s(1) by simp
qed

lemma get_completes:
  assumes "distinct (map fst (trackableObjects self))"
    "\<forall>obj \<in> set (objects fr). 10 \<le> length (t_kps obj)"
    "dom (record_people self) \<subseteq> dom (seen_people self)"
  shows "\<exists>self'. get T self fr = Inr self'
           \<and> distinct (map fst (trackableObjects self'))
           \<and> dom (record_people self') \<subseteq> dom (seen_people self')"
proof -
  let ?self0 = "self\<lparr>trackableObjects := map (\<lambda>(objectID, tr). (objectID, tr\<lparr>live := False\<rparr>))
                                   (trackableObjects self)\<rparr>"
  obtain self1 where p: "process_objects T (eye_opennesses fr) ?self0 (objects fr) = Inr self1"
    "dom (record_people self1) \<subseteq> dom (seen_people self1)"
    using process_objects_completes [OF assms(2), of ?self0 T "eye_opennesses fr"] assms(3) by auto
  have "map fst (trackableObjects ?self0) = map fst (trackableObjects self)"
    by (induction "trackableObjects self") (auto simp: split_def comp_def)
  then have "distinct (map fst (trackableObjects ?self0))"
    using assms(1) by (simp only:)
  then have d: "distinct (map fst (trackableObjects self1))"
    by (rule process_objects_registry(3) [OF p(1)])
  have g: "get T self fr = Inr (self1\<lparr>trackableObjects := filter (\<lambda>(k, tr). live tr) (trackableObjects self1)\<rparr>)"
    using p(1) delete_dead_live [OF d] by (simp add: get_def Let_def)
  show ?thesis using g d p(2) by (simp add: distinct_map_filter)
qed

lemma get_frames_completes:
  assumes "distinct (map fst (trackableObjects self))"
    "\<forall>fr \<in> set frs. \<forall>obj \<in> set (objects fr). 10 \<le> length (t_kps obj)"
    "dom (record_people self) \<subseteq> dom (seen_people self)"
  shows "\<exists>self'. get_frames T self frs = Inr self'"
  using assms
proof (induction frs arbitrary: self)
  case Nil
  show ?case by simp
next
  case (Cons fr frs)
  obtain self1 where s: "get T self fr = Inr self1" "distinct (map fst (trackableObjects self1))"
    "dom (record_people self1) \<subseteq> dom (seen_people self1)"
    using get_completes [of self fr T] Cons.prems by auto
  show ?case using Cons.IH [OF s(2) _ s(3)] Cons.prems(2) s(1) by simp
qed

subsection \<open>Recognized tracks\<close>

lemma get_recognized:
  assumes "get T self fr = Inr self'" "distinct (map fst (trackableObjects self))"
    and "map_of (trackableObjects self) k = Some tr" "recognized tr"
    and "k \<in> t_id ` set (objects fr)"
  shows "\<exists>tr'. map_of (trackableObjects self') k = Some tr' \<and> recognized tr'
           \<and> name tr' = name tr \<and> pinfl tr' = pinfl tr \<and> score tr' = score tr
           \<and> image_path tr' = image_path tr"
proof -
  let ?self0 = "self\<lparr>trackableObjects := map (\<lambda>(objectID, tr). (objectID, tr\<lparr>live := False\<rparr>))
                                   (trackableObjects self)\<rparr>"
  from assms(1,2) obtain self1 where
    p: "process_objects T (eye_opennesses fr) ?self0 (objects fr) = Inr self1"
    and d: "distinct (map fst (trackableObjects self1))"
    and s: "self' = self1\<lparr>trackableObjects := filter (\<lambda>(k, tr). live tr) (trackableObjects self1)\<rparr>"
    by (rule get_Inr)
  have m0: "map_of (trackableObjects ?self0) k = Some (tr\<lparr>live := False\<rparr>)"
    using assms(3) map_of_mark_dead [of "trackableObjects self" k] by simp
  obtain tr1 where tr1: "map_of (trackableObjects self1) k = Some tr1" "recognized tr1"
    "name tr1 = name tr" "pinfl tr1 = pinfl tr" "score tr1 = score tr" "image_path tr1 = image_path tr"
    using process_objects_recognized [OF p m0] assms(4) by auto
  obtain tr2 where "map_of (trackableObjects self1) k = Some tr2" "live tr2"
    using process_objects_registry(1) [OF p assms(5)] by (elim exE conjE)
  then have "live tr1" using tr1(1) by simp
  then have "map_of (trackableObjects self') k = Some tr1"
    using s map_of_filter_live [OF d, of k] tr1(1) by simp
  then show ?thesis using tr1 by simp
qed

text \<open>
  C10, amended.  The flag \<open>recognized\<close> is set by the identity resolution exactly when the
  stored score is positive afterwards; for a recognized track the resolution does nothing
  (neither the track nor the sightings counters change, whatever \<open>find_face\<close> would return);
  and over any sequence of frames in each of which the tracker confirms the track, its record
  keeps \<open>name\<close>, \<open>pinfl\<close>, \<open>score\<close>, \<open>image_path\<close> and stays recognized.
\<close>

theorem recognized_identity_is_frozen:
  assumes "distinct (map fst (trackableObjects self))"
    and "map_of (trackableObjects self) k = Some tr" "recognized tr"
    and "\<forall>fr \<in> set frs. k \<in> t_id ` set (objects fr)"
    and "get_frames T self frs = Inr self'"
  shows "(\<exists>tr'. map_of (trackableObjects self') k = Some tr' \<and> recognized tr'
            \<and> name tr' = name tr \<and> pinfl tr' = pinfl tr \<and> score tr' = score tr
            \<and> image_path tr' = image_path tr)
       \<and> resolve_identity self tr found cur = Inr (self, tr)
       \<and> (\<forall>u s' u'. \<not> recognized u \<and> resolve_identity self u found cur = Inr (s', u')
             \<longrightarrow> recognized u' = (0 < score u'))"
proof (intro conjI allI impI)
  show "\<exists>tr'. map_of (trackableObjects self') k = Some tr' \<and> recognized tr'
            \<and> name tr' = name tr \<and> pinfl tr' = pinfl tr \<and> score tr' = score tr
            \<and> image_path tr' = image_path tr"
    using assms
  proof (induction frs arbitrary: self tr)
    case Nil
    then show ?case by simp
  next
    case (Cons fr frs)
    from Cons.prems(5) obtain self1 where
      g: "get T self fr = Inr self1" and rest: "get_frames T self1 frs = Inr self'"
      by (auto split: sum.splits)
    have k: "k \<in> t_id ` set (objects fr)" using Cons.prems(4) by simp
    obtain tr1 where tr1: "map_of (trackableObjects self1) k = Some tr1" "recognized tr1"
      "name tr1 = name tr" "pinfl tr1 = pinfl tr" "score tr1 = score tr" "image_path tr1 = image_path tr"
      using get_recognized [OF g Cons.prems(1,2,3) k] by blast
    have d1: "distinct (map fst (trackableObjects self1))"
      by (rule get_registry(3) [OF g Cons.prems(1)])
    have "\<exists>tr'. map_of (trackableObjects self') k = Some tr' \<and> recognized tr'
            \<and> name tr' = name tr1 \<and> pinfl tr' = pinfl tr1 \<and> score tr' = score tr1
            \<and> image_path tr' = image_path tr1"
      by (rule Cons.IH [OF d1 tr1(1,2) _ rest]) (use Cons.prems(4) in simp)
    then show ?case using tr1(3-6) by simp
  qed
next
  show "resolve_identity self tr found cur = Inr (self, tr)"
    by (rule resolve_identity_recognized [OF assms(3)])
next
  fix u s' u'
  assume "\<not> recognized u \<and> resolve_identity self u found cur = Inr (s', u')"
  then show "recognized u' = (0 < score u')"
    using resolve_identity_flag [of u self found cur s' u'] by simp
qed

subsection \<open>Concrete passes\<close>

lemma inputs_well_formed:
  "10 \<le> length (t_kps (seen_at i found now))"
  "dom (record_people one_track) \<subseteq> dom (seen_people one_track)"
  "dom (record_people alice_tracked) \<subseteq> dom (seen_people alice_tracked)"
  "distinct (map fst (trackableObjects one_track))"
  "distinct (map fst (trackableObjects alice_tracked))"
  "map_of (trackableObjects alice_tracked) 1 = Some alice_track"
  "lookup_track T one_track (seen_at 1 found now) = checked_track"
  by (simp_all add: seen_at_def one_track_def alice_tracked_def alice_seen_def init_analysis_def
      lookup_track_def)


theorem registry_is_confirmed_tracks_witness:
  "distinct (map fst (trackableObjects alice_tracked))
   \<and> map fst (trackableObjects alice_tracked) = [1]
   \<and> (\<exists>self'. get blank_track alice_tracked (frame_of [seen_at 2 None 5]) = Inr self'
        \<and> set (map fst (trackableObjects self')) = {2}
        \<and> distinct (map fst (trackableObjects self'))
        \<and> (\<forall>(k, tr) \<in> set (trackableObjects self'). live tr))"
proof -
  have d: "distinct (map fst (trackableObjects alice_tracked))" by (rule inputs_well_formed(5))
  have ks: "map fst (trackableObjects alice_tracked) = [1]"
    by (simp add: alice_tracked_def)
  have wf: "\<forall>obj \<in> set (objects (frame_of [seen_at 2 None 5])). 10 \<le> length (t_kps obj)"
    by (simp add: frame_of_def inputs_well_formed(1))
  obtain self' where g: "get blank_track alice_tracked (frame_of [seen_at 2 None 5]) = Inr self'"
    using get_completes [OF d wf inputs_well_formed(3), of blank_track] by blast
  have ids: "t_id ` set (objects (frame_of [seen_at 2 None 5])) = {2}"
    by (simp add: frame_of_def seen_at_def)
  have "set (map fst (trackableObjects self')) = {2}
        \<and> distinct (map fst (trackableObjects self'))
        \<and> (\<forall>(k, tr) \<in> set (trackableObjects self'). live tr)"
    using registry_is_confirmed_tracks [OF d g] unfolding ids .
  then show ?thesis using d ks g by blast
qed

theorem recognized_identity_is_frozen_witness:
  "(\<exists>self'. get_frames blank_track alice_tracked
               [frame_of [seen_at 1 (Some bob) 5], frame_of [seen_at 2 None 6, seen_at 1 (Some bob) 6]]
             = Inr self'
       \<and> (\<exists>tr'. map_of (trackableObjects self') 1 = Some tr' \<and> recognized tr'
             \<and> name tr' = ''alice'' \<and> pinfl tr' = ''123'' \<and> score tr' = 9 / 10
             \<and> image_path tr' = ''alice.jpg''))
   \<and> resolve_identity alice_tracked alice_track (Some bob) 5 = Inr (alice_tracked, alice_track)
   \<and> (\<exists>s' u'. resolve_identity alice_tracked checked_track (Some bob) 5 = Inr (s', u')
         \<and> \<not> recognized checked_track \<and> recognized u' = (0 < score u'))"
proof -
  let ?frs = "[frame_of [seen_at 1 (Some bob) 5], frame_of [seen_at 2 None 6, seen_at 1 (Some bob) 6]]"
  have d: "distinct (map fst (trackableObjects alice_tracked))" by (rule inputs_well_formed(5))
  have k: "map_of (trackableObjects alice_tracked) 1 = Some alice_track"
    by (rule inputs_well_formed(6))
  have r: "recognized alice_track" by (simp add: alice_track_def)
  have c: "\<forall>fr \<in> set ?frs. (1::nat) \<in> t_id ` set (objects fr)"
    by (simp add: frame_of_def seen_at_def)
  have wf: "\<forall>fr \<in> set ?frs. \<forall>obj \<in> set (objects fr). 10 \<le> length (t_kps obj)"
    by (simp add: frame_of_def inputs_well_formed(1))
  obtain self' where g: "get_frames blank_track alice_tracked ?frs = Inr self'"
    using get_frames_completes [OF d wf inputs_well_formed(3), of blank_track] by blast
  have nr: "\<not> recognized checked_track" by (simp add: checked_track_def blank_track_def)
  obtain s' where cs: "count_sighting alice_tracked (p_name bob) 5 = Inr s'"
    using count_sighting_no_error [OF inputs_well_formed(3), of "p_name bob" 5] by blast
  have sc: "score checked_track < p_score bob"
    by (simp add: checked_track_def blank_track_def bob_def)
  obtain u' where u: "resolve_identity alice_tracked checked_track (Some bob) 5 = Inr (s', u')"
    using nr cs sc by (simp add: resolve_identity_def)
  have v: "name alice_track = ''alice''" "pinfl alice_track = ''123''" "score alice_track = 9 / 10"
    "image_path alice_track = ''alice.jpg''"
    by (simp_all add: alice_track_def)
  note th = recognized_identity_is_frozen [OF d k r c g, where found = "Some bob" and cur = 5]
  have 1: "\<exists>tr'. map_of (trackableObjects self') 1 = Some tr' \<and> recognized tr'
             \<and> name tr' = ''alice'' \<and> pinfl tr' = ''123'' \<and> score tr' = 9 / 10
             \<and> image_path tr' = ''alice.jpg''"
    using conjunct1 [OF th] by (simp only: v)
  have 2: "resolve_identity alice_tracked alice_track (Some bob) 5 = Inr (alice_tracked, alice_track)"
    using th by (elim conjE)
  have 3: "recognized u' = (0 < score u')"
    using th nr u by blast
  show ?thesis using g 1 2 3 u nr by blast
qed

text \<open>
  C10, as stated, fails.  Track 1 is recognized as \<open>alice\<close>.  The tracker does not confirm it in
  one frame, so its record is deleted (lines 292--299); when the tracker confirms id 1 again
  in the next frame, lines 216--219 build a new \<open>TrackableObject\<close>, identity resolution runs
  again and the record of track 1 now names \<open>bob\<close>.
\<close>

theorem reacquired_track_counterexample:
  "identity_of (Inr alice_tracked) 1 = Some (''alice'', ''123'', 9 / 10, ''alice.jpg'', True)
   \<and> identity_of (get_frames blank_track alice_tracked [frame_of [seen_at 2 None 5]]) 1 = None
   \<and> identity_of (get_frames blank_track alice_tracked
                     [frame_of [seen_at 2 None 5], frame_of [seen_at 1 (Some bob) 6]]) 1
       = Some (''bob'', ''456'', 99 / 100, ''bob.jpg'', True)"
  by code_simp

end
